theory Spec2Isabelle
  imports Complex_Main
begin

section \<open>Numbers\<close>

text \<open>
  The program computes with JavaScript numbers. They are modelled as mathematical reals
  extended with the two infinities and NaN. \<open>js_add\<close>, \<open>js_mul\<close> and \<open>js_div\<close> give the exact
  result of an operation, with division by zero, arithmetic on infinities and
  comparisons with NaN as IEEE 754 and JavaScript have them. The lexical and the
  composite scores are short sums of small decimal fractions and are computed with these
  exact operations (their rounding is not modelled). The semantic scorer works on
  arbitrary vectors, where overflow, underflow and rounding decide the result: its
  operations round the exact result to a double, see \<open>round_double\<close> below. The only zero
  is the positive one: every divisor of the program is a length, a product of lengths or
  a square root.
\<close>

datatype jsnum = Fin real | PosInf | NegInf | NaN

fun js_add :: "jsnum \<Rightarrow> jsnum \<Rightarrow> jsnum" where
  "js_add (Fin a) (Fin b) = Fin (a + b)"
| "js_add NaN _ = NaN"
| "js_add _ NaN = NaN"
| "js_add PosInf NegInf = NaN"
| "js_add NegInf PosInf = NaN"
| "js_add PosInf _ = PosInf"
| "js_add _ PosInf = PosInf"
| "js_add NegInf _ = NegInf"
| "js_add _ NegInf = NegInf"

fun js_neg :: "jsnum \<Rightarrow> jsnum" where
  "js_neg (Fin a) = Fin (- a)"
| "js_neg PosInf = NegInf"
| "js_neg NegInf = PosInf"
| "js_neg NaN = NaN"

definition js_sub :: "jsnum \<Rightarrow> jsnum \<Rightarrow> jsnum" where
  "js_sub a b = js_add a (js_neg b)"

fun js_mul :: "jsnum \<Rightarrow> jsnum \<Rightarrow> jsnum" where
  "js_mul (Fin a) (Fin b) = Fin (a * b)"
| "js_mul NaN _ = NaN"
| "js_mul _ NaN = NaN"
| "js_mul (Fin a) PosInf = (if a = 0 then NaN else if 0 < a then PosInf else NegInf)"
| "js_mul (Fin a) NegInf = (if a = 0 then NaN else if 0 < a then NegInf else PosInf)"
| "js_mul PosInf (Fin b) = (if b = 0 then NaN else if 0 < b then PosInf else NegInf)"
| "js_mul NegInf (Fin b) = (if b = 0 then NaN else if 0 < b then NegInf else PosInf)"
| "js_mul PosInf PosInf = PosInf"
| "js_mul NegInf NegInf = PosInf"
| "js_mul PosInf NegInf = NegInf"
| "js_mul NegInf PosInf = NegInf"

fun js_div :: "jsnum \<Rightarrow> jsnum \<Rightarrow> jsnum" where
  "js_div (Fin a) (Fin b) =
     (if b = 0 then (if a = 0 then NaN else if 0 < a then PosInf else NegInf)
      else Fin (a / b))"
| "js_div NaN _ = NaN"
| "js_div _ NaN = NaN"
| "js_div (Fin a) PosInf = Fin 0"
| "js_div (Fin a) NegInf = Fin 0"
| "js_div PosInf (Fin b) = (if 0 \<le> b then PosInf else NegInf)"
| "js_div NegInf (Fin b) = (if 0 \<le> b then NegInf else PosInf)"
| "js_div PosInf PosInf = NaN"
| "js_div PosInf NegInf = NaN"
| "js_div NegInf PosInf = NaN"
| "js_div NegInf NegInf = NaN"

text \<open>The comparison \<open>a > b\<close>: false as soon as one side is NaN.\<close>

fun js_gt :: "jsnum \<Rightarrow> jsnum \<Rightarrow> bool" where
  "js_gt (Fin a) (Fin b) = (b < a)"
| "js_gt NaN _ = False"
| "js_gt _ NaN = False"
| "js_gt PosInf PosInf = False"
| "js_gt PosInf _ = True"
| "js_gt _ PosInf = False"
| "js_gt NegInf _ = False"
| "js_gt _ NegInf = True"

text \<open>\<open>Math.min\<close> of two numbers: NaN when either argument is NaN.\<close>

fun js_min :: "jsnum \<Rightarrow> jsnum \<Rightarrow> jsnum" where
  "js_min (Fin a) (Fin b) = Fin (min a b)"
| "js_min NaN _ = NaN"
| "js_min _ NaN = NaN"
| "js_min NegInf _ = NegInf"
| "js_min _ NegInf = NegInf"
| "js_min PosInf b = b"
| "js_min a PosInf = a"

subsection \<open>Doubles\<close>

text \<open>
  A JavaScript number is an IEEE 754 double: a significand of 53 bits, exponents from
  -1022 to 1023, gradual underflow, and round to nearest with ties to even. \<open>binade x\<close>
  is the exponent of the power of two at or below \<open>\<bar>x\<bar>\<close>, at least -1022, so \<open>2 powi (binade x - 52)\<close>
  is the distance between neighbouring doubles around \<open>x\<close>; \<open>round_double x\<close> is the multiple
  of that distance nearest to \<open>x\<close>, or an infinity when this reaches \<open>2 ^ 1024\<close>.
\<close>

definition round_half_even :: "real \<Rightarrow> int" where
  "round_half_even y =
     (let n = \<lfloor>y\<rfloor>; d = y - of_int n
      in if d < 1 / 2 then n else if 1 / 2 < d then n + 1 else if even n then n else n + 1)"

definition binade :: "real \<Rightarrow> int" where
  "binade x = max \<lfloor>log 2 \<bar>x\<bar>\<rfloor> (- 1022)"

definition round_double :: "real \<Rightarrow> jsnum" where
  "round_double x =
     (if x = 0 then Fin 0
      else let quantum = 2 powi (binade x - 52);
               r = of_int (round_half_even (x / quantum)) * quantum
           in if 2 ^ 1024 \<le> r then PosInf else if r \<le> - (2 ^ 1024) then NegInf else Fin r)"

fun rounded :: "jsnum \<Rightarrow> jsnum" where
  "rounded (Fin x) = round_double x"
| "rounded PosInf = PosInf"
| "rounded NegInf = NegInf"
| "rounded NaN = NaN"

text \<open>The operators \<open>+\<close>, \<open>*\<close>, \<open>/\<close> and \<open>Math.sqrt\<close> on doubles.\<close>

definition double_add :: "jsnum \<Rightarrow> jsnum \<Rightarrow> jsnum" where
  "double_add a b = rounded (js_add a b)"

definition double_mul :: "jsnum \<Rightarrow> jsnum \<Rightarrow> jsnum" where
  "double_mul a b = rounded (js_mul a b)"

definition double_div :: "jsnum \<Rightarrow> jsnum \<Rightarrow> jsnum" where
  "double_div a b = rounded (js_div a b)"

fun Math_sqrt :: "jsnum \<Rightarrow> jsnum" where
  "Math_sqrt (Fin x) = (if x < 0 then NaN else round_double (sqrt x))"
| "Math_sqrt PosInf = PosInf"
| "Math_sqrt NegInf = NaN"
| "Math_sqrt NaN = NaN"

section \<open>Semantic scorer\<close>

text \<open>
  An embedding is a list of numbers; an absent one (\<open>undefined\<close> or \<open>null\<close>) is \<open>None\<close>.
  The components of a vector are finite doubles. The loop of \<open>similarity\<close> and
  \<open>cosineSimilarity\<close> runs over the indices of \<open>a\<close> and is entered only when both lengths
  agree; it carries the three accumulators \<open>dot\<close>, \<open>magA\<close>, \<open>magB\<close>, and every product and
  every sum is rounded. The result is a number of the program: it can be NaN.
\<close>

type_synonym vector = "real list"

fun similarity_loop :: "vector \<Rightarrow> vector \<Rightarrow> jsnum \<times> jsnum \<times> jsnum \<Rightarrow> jsnum \<times> jsnum \<times> jsnum" where
  "similarity_loop (x # xs) (y # ys) (dot, magA, magB) =
     similarity_loop xs ys
       (double_add dot (double_mul (Fin x) (Fin y)),
        double_add magA (double_mul (Fin x) (Fin x)),
        double_add magB (double_mul (Fin y) (Fin y)))"
| "similarity_loop _ _ acc = acc"


definition cosineSimilarity :: "vector option \<Rightarrow> vector option \<Rightarrow> jsnum" where
  "cosineSimilarity a b =
     (case (a, b) of
        (Some va, Some vb) \<Rightarrow>
          if length va \<noteq> length vb \<or> length va = 0 then Fin 0
          else (case similarity_loop va vb (Fin 0, Fin 0, Fin 0) of
                  (dot, magA, magB) \<Rightarrow>
                    let magnitude = Math_sqrt (double_mul magA magB)
                    in if js_gt magnitude (Fin 0) then double_div dot magnitude else Fin 0)
      | _ \<Rightarrow> Fin 0)"

section \<open>Strings\<close>

text \<open>
  A JavaScript string is a sequence of 16-bit code units. The model restricts text to the
  code units below 256 (Latin-1), which are the characters of \<^typ>\<open>string\<close>; \<open>length\<close>
  is then the \<open>length\<close> property. On this range \<open>toLowerCase\<close> maps A-Z and the
  accented capitals (192-222 except the multiplication sign 215) to the letter 32 above
  and leaves every other character alone.
\<close>

definition lower_char :: "char \<Rightarrow> char" where
  "lower_char c =
     (let n = (of_char c :: nat)
      in if (65 \<le> n \<and> n \<le> 90) \<or> (192 \<le> n \<and> n \<le> 214) \<or> (216 \<le> n \<and> n \<le> 222)
         then char_of (n + 32) else c)"

definition toLowerCase :: "string \<Rightarrow> string" where
  "toLowerCase s = map lower_char s"

text \<open>
  White space as \<open>\s\<close> and \<open>trim\<close> see it (tab, line feed, vertical tab, form feed,
  carriage return, space, no-break space), and the line terminators that \<open>.\<close> refuses.
\<close>

definition is_space :: "char \<Rightarrow> bool" where
  "is_space c = (let n = (of_char c :: nat) in (9 \<le> n \<and> n \<le> 13) \<or> n = 32 \<or> n = 160)"

definition is_line_terminator :: "char \<Rightarrow> bool" where
  "is_line_terminator c = (let n = (of_char c :: nat) in n = 10 \<or> n = 13)"

definition is_digit :: "char \<Rightarrow> bool" where
  "is_digit c = (let n = (of_char c :: nat) in 48 \<le> n \<and> n \<le> 57)"

definition is_upper :: "char \<Rightarrow> bool" where
  "is_upper c = (let n = (of_char c :: nat) in 65 \<le> n \<and> n \<le> 90)"

definition is_lower :: "char \<Rightarrow> bool" where
  "is_lower c = (let n = (of_char c :: nat) in 97 \<le> n \<and> n \<le> 122)"

text \<open>\<open>\w\<close>: an ASCII letter, a digit or the underscore.\<close>

definition is_word_char :: "char \<Rightarrow> bool" where
  "is_word_char c = (is_upper c \<or> is_lower c \<or> is_digit c \<or> c = CHR ''_'')"

definition trim :: "string \<Rightarrow> string" where
  "trim s = rev (dropWhile is_space (rev (dropWhile is_space s)))"

text \<open>\<open>s.startsWith(t)\<close>, \<open>s.endsWith(t)\<close> and \<open>s.includes(t)\<close>.\<close>

fun startsWith :: "string \<Rightarrow> string \<Rightarrow> bool" where
  "startsWith s [] = True"
| "startsWith [] (c # t) = False"
| "startsWith (d # s) (c # t) = (d = c \<and> startsWith s t)"

definition endsWith :: "string \<Rightarrow> string \<Rightarrow> bool" where
  "endsWith s t = startsWith (rev s) (rev t)"

fun includes_str :: "string \<Rightarrow> string \<Rightarrow> bool" where
  "includes_str [] t = (t = [])"
| "includes_str (d # s) t = (startsWith (d # s) t \<or> includes_str s t)"

text \<open>
  \<open>s.split(re)\<close> for a pattern that matches exactly the maximal runs of one class of
  characters (\<open>/\s+/\<close>, \<open>/[.!?]+/\<close>): the pieces between the runs, an empty piece before a
  leading run and after a trailing one, and the whole string when it has no run.
\<close>

fun split_runs :: "(char \<Rightarrow> bool) \<Rightarrow> string \<Rightarrow> string \<Rightarrow> bool \<Rightarrow> string list" where
  "split_runs P acc [] in_run = [rev acc]"
| "split_runs P acc (c # cs) in_run =
     (if P c then (if in_run then split_runs P acc cs True
                   else rev acc # split_runs P [] cs True)
      else split_runs P (c # acc) cs False)"

definition split_spaces :: "string \<Rightarrow> string list" where
  "split_spaces s = split_runs is_space [] s False"

text \<open>The decimal digits of a number, as template literals and \<open>join\<close> print an index.\<close>

definition digit_char :: "nat \<Rightarrow> char" where
  "digit_char d = char_of (48 + d)"

function show_nat :: "nat \<Rightarrow> string" where
  "show_nat n = (if n < 10 then [digit_char n] else show_nat (n div 10) @ [digit_char (n mod 10)])"
  by pat_completeness auto
termination
  by (relation "measure (\<lambda>n. n)") auto

declare show_nat.simps [simp del]

text \<open>\<open>xs.join(sep)\<close>.\<close>

fun join :: "string \<Rightarrow> string list \<Rightarrow> string" where
  "join sep [] = []"
| "join sep [x] = x"
| "join sep (x # y # ys) = x @ sep @ join sep (y # ys)"

section \<open>Regular expressions built from query words\<close>

text \<open>
  The lexical scorers pass each query word to \<open>new RegExp(word, 'g')\<close> and count the
  matches of \<open>text.match(...)\<close>. The word is read as a pattern, so the model has the
  pattern grammar of ECMAScript (with the web-compatibility rules of Annex B, without
  flags other than \<open>g\<close>) for these constructs: pattern characters, \<open>.\<close>, \<open>^\<close>, \<open>$\<close>,
  \<open>|\<close>, the groups \<open>( )\<close> and \<open>(?: )\<close>, the quantifiers \<open>*\<close>, \<open>+\<close>, \<open>?\<close> and their lazy
  forms, and a backslash before a character that is no letter and no digit. The
  constructor throws \<open>SyntaxError\<close> on a pattern that the grammar refuses. A pattern that
  reaches a construct beyond this list (a character class, a braced quantifier, a
  look-around or named group, a backslash before a letter or a digit) is answered by
  \<open>OutsideModel\<close>: the model says nothing about it.
\<close>

datatype exn = SyntaxError | OutsideModel

datatype regex =
    Empty
  | Chr char
  | Dot
  | Bol
  | Eol
  | Seq regex regex
  | Alt regex regex
  | Rep nat "nat option" bool regex

text \<open>
  \<open>Rep min max greedy r\<close> is a quantified atom; \<open>max = None\<close> is no upper bound. The
  parser reads the pattern from left to right. It keeps the alternatives already closed
  and the terms of the current alternative (both latest first), a stack of these pairs
  for the groups that are open, and what the last term was: a quantifier needs an atom
  before it, and a \<open>?\<close> right after a quantifier makes it lazy.
\<close>

datatype last_term = NoAtom | Atom | Quantified

fun mk_seq :: "regex list \<Rightarrow> regex" where
  "mk_seq [] = Empty"
| "mk_seq [t] = t"
| "mk_seq (t # ts) = Seq t (mk_seq ts)"

fun mk_alt :: "regex list \<Rightarrow> regex" where
  "mk_alt [] = Empty"
| "mk_alt [a] = a"
| "mk_alt (a # as) = Alt a (mk_alt as)"

definition close_disjunction :: "regex list \<Rightarrow> regex list \<Rightarrow> regex" where
  "close_disjunction alts cur = mk_alt (rev (mk_seq (rev cur) # alts))"

definition quantifier_bounds :: "char \<Rightarrow> nat \<times> nat option" where
  "quantifier_bounds c =
     (if c = CHR ''*'' then (0, None) else if c = CHR ''+'' then (1, None) else (0, Some 1))"

definition is_alnum :: "char \<Rightarrow> bool" where
  "is_alnum c = (is_upper c \<or> is_lower c \<or> is_digit c)"

fun parse_pattern ::
  "(regex list \<times> regex list) list \<Rightarrow> regex list \<Rightarrow> regex list \<Rightarrow> last_term \<Rightarrow> string
     \<Rightarrow> exn + regex" where
  "parse_pattern stack alts cur lst [] =
     (if stack = [] then Inr (close_disjunction alts cur) else Inl SyntaxError)"
| "parse_pattern stack alts cur lst (c # cs) =
     (if c = CHR ''|'' then parse_pattern stack (mk_seq (rev cur) # alts) [] NoAtom cs
      else if c = CHR ''('' then
        (case cs of
           d # ds \<Rightarrow>
             if d = CHR ''?'' then
               (case ds of
                  e # es \<Rightarrow>
                    if e = CHR '':'' then parse_pattern ((alts, cur) # stack) [] [] NoAtom es
                    else Inl OutsideModel
                | [] \<Rightarrow> Inl OutsideModel)
             else parse_pattern ((alts, cur) # stack) [] [] NoAtom cs
         | [] \<Rightarrow> parse_pattern ((alts, cur) # stack) [] [] NoAtom cs)
      else if c = CHR '')'' then
        (case stack of
           [] \<Rightarrow> Inl SyntaxError
         | (alts', cur') # stack' \<Rightarrow>
             parse_pattern stack' alts' (close_disjunction alts cur # cur') Atom cs)
      else if c = CHR ''*'' \<or> c = CHR ''+'' \<or> c = CHR ''?'' then
        (case (lst, cur) of
           (Atom, t # ts) \<Rightarrow>
             (case quantifier_bounds c of
                (mn, mx) \<Rightarrow> parse_pattern stack alts (Rep mn mx True t # ts) Quantified cs)
         | (Quantified, Rep mn mx g t # ts) \<Rightarrow>
             if c = CHR ''?'' then parse_pattern stack alts (Rep mn mx False t # ts) NoAtom cs
             else Inl SyntaxError
         | _ \<Rightarrow> Inl SyntaxError)
      else if c = CHR ''^'' then parse_pattern stack alts (Bol # cur) NoAtom cs
      else if c = CHR ''$'' then parse_pattern stack alts (Eol # cur) NoAtom cs
      else if c = CHR ''.'' then parse_pattern stack alts (Dot # cur) Atom cs
      else if c = CHR 0x5C then
        (case cs of
           [] \<Rightarrow> Inl SyntaxError
         | d # ds \<Rightarrow>
             if is_alnum d then Inl OutsideModel
             else parse_pattern stack alts (Chr d # cur) Atom ds)
      else if c = CHR ''['' \<or> c = CHR ''{'' then Inl OutsideModel
      else parse_pattern stack alts (Chr c # cur) Atom cs)"

definition RegExp :: "string \<Rightarrow> exn + regex" where
  "RegExp pattern = parse_pattern [] [] [] NoAtom pattern"

text \<open>
  Matching follows the backtracking matcher of the language specification. With no
  captures and no look-around, the state of the matcher is the input still to be read,
  so the matcher is the list of the ways a pattern can end when started at a position,
  most preferred first: the first one that lets the rest of the pattern succeed is the
  one the matcher picks. \<open>ends r n rest\<close> lists what is left of the input after a match of
  \<open>r\<close> that starts where \<open>rest\<close> is left, in an input of length \<open>n\<close>. An iteration of a
  quantifier that has met its minimum and consumes nothing is refused (its end index
  equals its start index), as \<open>RepeatMatcher\<close> does.
\<close>

fun regex_size :: "regex \<Rightarrow> nat" where
  "regex_size (Seq a b) = Suc (regex_size a + regex_size b)"
| "regex_size (Alt a b) = Suc (regex_size a + regex_size b)"
| "regex_size (Rep mn mx g r) = Suc (regex_size r)"
| "regex_size _ = 0"

fun rep_min :: "regex \<Rightarrow> nat" where
  "rep_min (Rep mn mx g r) = mn"
| "rep_min _ = 0"

function ends :: "regex \<Rightarrow> nat \<Rightarrow> string \<Rightarrow> string list" where
  "ends Empty n rest = [rest]"
| "ends (Chr c) n rest = (case rest of d # ds \<Rightarrow> if d = c then [ds] else [] | [] \<Rightarrow> [])"
| "ends Dot n rest =
     (case rest of d # ds \<Rightarrow> if is_line_terminator d then [] else [ds] | [] \<Rightarrow> [])"
| "ends Bol n rest = (if length rest = n then [rest] else [])"
| "ends Eol n rest = (if rest = [] then [rest] else [])"
| "ends (Seq a b) n rest = concat (map (\<lambda>mid. ends b n mid) (ends a n rest))"
| "ends (Alt a b) n rest = ends a n rest @ ends b n rest"
| "ends (Rep mn mx g r) n rest =
     (if mx = Some 0 then [rest]
      else
        let more = concat (map (\<lambda>mid.
                     if mn = 0 \<and> length rest \<le> length mid then []
                     else ends (Rep (mn - 1) (map_option (\<lambda>m. m - 1) mx) g r) n mid)
                   (ends r n rest))
        in if mn \<noteq> 0 then more else if g then more @ [rest] else rest # more)"
  by pat_completeness auto
termination
  apply (relation "measures [\<lambda>(r, n, rest). regex_size r, \<lambda>(r, n, rest). rep_min r,
                          \<lambda>(r, n, rest). length rest]")
         apply simp_all
  apply arith
  done

text \<open>
  \<open>text.match(re)\<close> with the \<open>g\<close> flag: the search starts at index 0, takes the first
  index at which the pattern matches, continues at the end of the match, and steps one
  character further after an empty match. \<open>count_matches\<close> is the length of the array of
  matches, 0 when \<open>match\<close> returns \<open>null\<close>.
\<close>

lemmas ends_Rep = ends.simps(8)

declare ends.simps(8) [simp del]

lemma ends_suffix: "e \<in> set (ends r n rest) \<Longrightarrow> \<exists>p. rest = p @ e"
proof (induction r n rest arbitrary: e rule: ends.induct)
  case (6 a b n rest)
  then obtain mid where m: "mid \<in> set (ends a n rest)" and e: "e \<in> set (ends b n mid)"
    by auto
  from "6.IH"(1) [OF m] "6.IH"(2) [OF m e] show ?case by auto
next
  case (8 mn mx g r n rest)
  show ?case
  proof (cases "mx = Some 0")
    case True
    with "8.prems" show ?thesis by (simp add: ends_Rep)
  next
    case False
    define step where "step = (\<lambda>mid.
                     if mn = 0 \<and> length rest \<le> length mid then []
                     else ends (Rep (mn - 1) (map_option (\<lambda>m. m - 1) mx) g r) n mid)"
    have more: "\<exists>p. rest = p @ x" if "x \<in> set (concat (map step (ends r n rest)))" for x
    proof -
      from that obtain mid where m: "mid \<in> set (ends r n rest)" and xs: "x \<in> set (step mid)"
        by auto
      from xs have nz: "\<not> (mn = 0 \<and> length rest \<le> length mid)"
        by (cases "mn = 0 \<and> length rest \<le> length mid") (simp_all add: step_def)
      with xs have x: "x \<in> set (ends (Rep (mn - 1) (map_option (\<lambda>m. m - 1) mx) g r) n mid)"
        by (simp add: step_def)
      from "8.IH"(1) [OF False m] obtain p where "rest = p @ mid" by blast
      moreover from "8.IH"(2) [OF False m nz x] obtain q where "mid = q @ x" by blast
      ultimately have "rest = (p @ q) @ x" by simp
      then show ?thesis by blast
    qed
    have "ends (Rep mn mx g r) n rest =
            (let more = concat (map step (ends r n rest))
             in if mn \<noteq> 0 then more else if g then more @ [rest] else rest # more)"
      using False unfolding step_def by (subst ends_Rep) simp
    with "8.prems" have "e \<in> set (concat (map step (ends r n rest))) \<or> e = rest"
      by (cases "mn = 0"; cases g) (auto simp: Let_def)
    with more show ?thesis by auto
  qed
next
  case (1 n rest) then show ?case by simp
next
  case (2 c n rest)
  then have "rest = [c] @ e" by (auto split: list.splits if_splits)
  then show ?case by blast
next
  case (3 n rest)
  then obtain d where "rest = [d] @ e" by (auto split: list.splits if_splits)
  then show ?case by blast
next
  case (4 n rest) then show ?case by (simp split: if_splits)
next
  case (5 n rest) then show ?case by (simp split: if_splits)
next
  case (7 a b n rest) then show ?case by auto
qed

lemma ends_length: "e \<in> set (ends r n rest) \<Longrightarrow> length e \<le> length rest"
  by (auto dest: ends_suffix)

text \<open>
  Hence the test of \<open>ends\<close> for an iteration that consumed nothing is the test of the
  specification, that the iteration ends where it started.
\<close>

lemma empty_iteration_iff:
  "mid \<in> set (ends r n rest) \<Longrightarrow> length rest \<le> length mid \<longleftrightarrow> mid = rest"
  by (auto dest: ends_suffix)

function count_from :: "regex \<Rightarrow> nat \<Rightarrow> string \<Rightarrow> nat" where
  "count_from r n rest =
     (case ends r n rest of
        [] \<Rightarrow> (case rest of [] \<Rightarrow> 0 | d # ds \<Rightarrow> count_from r n ds)
      | e # es \<Rightarrow>
          Suc (if length e = length rest
               then (case rest of [] \<Rightarrow> 0 | d # ds \<Rightarrow> count_from r n ds)
               else count_from r n e))"
  by pat_completeness auto
termination
proof (relation "measure (\<lambda>(r, n, rest). length rest)")
  fix r :: regex and n :: nat and rest e :: string and es :: "string list"
  assume "ends r n rest = e # es" and "length e \<noteq> length rest"
  moreover from \<open>ends r n rest = e # es\<close> have "length e \<le> length rest"
    by (intro ends_length [of e r n rest]) simp
  ultimately show "((r, n, e), (r, n, rest)) \<in> measure (\<lambda>(r, n, rest). length rest)"
    by simp
qed simp_all

declare count_from.simps [simp del]

definition count_matches :: "regex \<Rightarrow> string \<Rightarrow> nat" where
  "count_matches r s = count_from r (length s) s"

text \<open>\<open>(text.match(new RegExp(word, 'g')) || []).length\<close>, or the exception of the constructor.\<close>

definition match_count :: "string \<Rightarrow> string \<Rightarrow> exn + nat" where
  "match_count word t =
     (case RegExp word of Inl e \<Rightarrow> Inl e | Inr r \<Rightarrow> Inr (count_matches r t))"

section \<open>Lexical scorers\<close>

text \<open>\<open>query.toLowerCase().split(/\s+/).filter(word => word.length > 2)\<close>\<close>

definition queryWords :: "string \<Rightarrow> string list" where
  "queryWords query = filter (\<lambda>word. 2 < length word) (split_spaces (toLowerCase query))"

text \<open>
  The \<open>forEach\<close> of \<open>calculateKeywordRelevance\<close>: the running score is a finite number; an
  exception of \<open>RegExp\<close> leaves the loop and the function.
\<close>

fun keyword_loop :: "string list \<Rightarrow> string \<Rightarrow> real \<Rightarrow> exn + real" where
  "keyword_loop [] textLower score = Inr score"
| "keyword_loop (word # ws) textLower score =
     (case match_count word textLower of
        Inl e \<Rightarrow> Inl e
      | Inr matches \<Rightarrow>
          keyword_loop ws textLower (score + real matches * (real (length word) / 10)))"

definition calculateKeywordRelevance :: "string \<Rightarrow> string \<Rightarrow> exn + jsnum" where
  "calculateKeywordRelevance query t =
     (let ws = queryWords query; textLower = toLowerCase t
      in case keyword_loop ws textLower 0 of
           Inl e \<Rightarrow> Inl e
         | Inr score \<Rightarrow>
             let score = (if includes_str textLower (toLowerCase query) then score + 2 else score)
             in Inr (js_min (js_div (Fin score) (Fin (real (length ws) * 2))) (Fin 1)))"

text \<open>
  \<open>calculateContentRelevance\<close> of the simple system: the same sum, guarded by
  \<open>wordCount > 0\<close>, normalised by the length of the text.
\<close>

fun content_loop :: "string list \<Rightarrow> string \<Rightarrow> real \<times> nat \<Rightarrow> exn + real \<times> nat" where
  "content_loop [] textLower acc = Inr acc"
| "content_loop (word # ws) textLower (relevanceScore, totalMatches) =
     (case match_count word textLower of
        Inl e \<Rightarrow> Inl e
      | Inr wordCount \<Rightarrow>
          if 0 < wordCount
          then content_loop ws textLower
                 (relevanceScore + real wordCount * (real (length word) / 10),
                  totalMatches + wordCount)
          else content_loop ws textLower (relevanceScore, totalMatches))"

definition calculateContentRelevance :: "string \<Rightarrow> string \<Rightarrow> exn + jsnum" where
  "calculateContentRelevance query t =
     (let ws = queryWords query; textLower = toLowerCase t
      in case content_loop ws textLower (0, 0) of
           Inl e \<Rightarrow> Inl e
         | Inr (relevanceScore, totalMatches) \<Rightarrow>
             let relevanceScore =
                   (if includes_str textLower (toLowerCase query) then relevanceScore + 2
                    else relevanceScore);
                 normalizedScore = js_div (Fin relevanceScore) (Fin (real (length t) / 100))
             in Inr (js_min normalizedScore (Fin 1)))"

section \<open>Text units\<close>

text \<open>
  \<open>Chunk\<close> is the unit of the simple system and \<open>EnhancedChunk\<close> the unit of the enhanced
  one, which has the same four fields and six more. The fields \<open>text\<close> and \<open>context\<close> are
  \<open>chunk_text\<close> and \<open>chunk_context\<close> here.
\<close>

datatype speaker = Host | Guest | Unknown

record Chunk =
  chunk_text :: string
  episode :: string
  index :: nat
  embedding :: "vector option"

record EnhancedChunk = Chunk +
  episodeTitle :: string
  speaker :: speaker
  guestName :: "string option"
  timestamp :: "string option"
  topics :: "string list"
  chunk_context :: string

datatype confidence = High | Medium | Low

record RetrievalResult =
  chunk :: EnhancedChunk
  relevanceScore :: jsnum
  confidenceLevel :: confidence
  matchReason :: string

section \<open>Topic tagger\<close>

text \<open>
  Each pattern of \<open>topicPatterns\<close> is an alternation of literal words under the flags
  \<open>gi\<close>, created afresh by every call, and \<open>test\<close> is asked once: it holds exactly when
  one of the words occurs in the text, letters compared without case.
\<close>

definition topicPatterns :: "(string \<times> string list) list" where
  "topicPatterns =
     [(''real-estate'', [''real estate'', ''property'', ''housing'', ''construction'',
                         ''builder'', ''apartment'', ''rent'']),
      (''gaming'', [''game'', ''gaming'', ''esports'', ''mobile gaming'', ''pc gaming'',
                    ''console'', ''developer'']),
      (''startup'', [''startup'', ''entrepreneur'', ''business'', ''company'', ''venture'',
                     ''founder'']),
      (''fintech'', [''fintech'', ''financial'', ''banking'', ''payment'', ''wallet'', ''upi'',
                     ''digital payment'']),
      (''edtech'', [''education'', ''learning'', ''online course'', ''skill'', ''training'',
                    ''edtech'']),
      (''food'', [''restaurant'', ''food'', ''dining'', ''kitchen'', ''chef'', ''delivery'',
                  ''zomato'', ''swiggy'']),
      (''ev'', [''electric vehicle'', ''ev'', ''battery'', ''automotive'', ''car'', ''vehicle'',
                ''charging'']),
      (''investment'', [''investment'', ''funding'', ''vc'', ''investor'', ''capital'',
                        ''valuation'', ''ipo'']),
      (''marketing'', [''marketing'', ''brand'', ''advertising'', ''content'', ''social media'',
                       ''influencer'']),
      (''healthcare'', [''healthcare'', ''medical'', ''hospital'', ''doctor'', ''telemedicine'',
                        ''pharma''])]"

definition pattern_test :: "string list \<Rightarrow> string \<Rightarrow> bool" where
  "pattern_test alternatives t = list_ex (\<lambda>w. includes_str (toLowerCase t) w) alternatives"

definition extractTopics :: "string \<Rightarrow> string list" where
  "extractTopics t = map fst (filter (\<lambda>(topic, pattern). pattern_test pattern t) topicPatterns)"

section \<open>Embedding provider\<close>

text \<open>
  The request to the embedding provider is outside the program: it is a function from
  the text sent to what came back. \<open>getEmbedding\<close> turns every failure into \<open>undefined\<close>.
\<close>

datatype api_outcome =
    RequestFailed
  | StatusNotOk
  | InvalidStructure
  | EmbeddingData vector

definition getEmbedding :: "string option \<Rightarrow> (string \<Rightarrow> api_outcome) \<Rightarrow> string \<Rightarrow> vector option" where
  "getEmbedding OPENAI_API_KEY api t =
     (if OPENAI_API_KEY = None \<or> OPENAI_API_KEY = Some [] then None
      else if trim t = [] \<or> length (trim t) < 10 then None
      else (case api (trim t) of EmbeddingData v \<Rightarrow> Some v | _ \<Rightarrow> None))"

section \<open>Retrieval orchestrator\<close>

text \<open>
  \<open>xs.sort(cmp)\<close> is stable. \<open>sort_by\<close> is the stable insertion sort: an element moves
  behind a later one only when \<open>cmp\<close> is positive for the pair.
\<close>

fun insert_by :: "('a \<Rightarrow> 'a \<Rightarrow> jsnum) \<Rightarrow> 'a \<Rightarrow> 'a list \<Rightarrow> 'a list" where
  "insert_by cmp x [] = [x]"
| "insert_by cmp x (y # ys) =
     (if js_gt (cmp x y) (Fin 0) then y # insert_by cmp x ys else x # y # ys)"

fun sort_by :: "('a \<Rightarrow> 'a \<Rightarrow> jsnum) \<Rightarrow> 'a list \<Rightarrow> 'a list" where
  "sort_by cmp [] = []"
| "sort_by cmp (x # xs) = insert_by cmp x (sort_by cmp xs)"

text \<open>\<open>xs.map(f)\<close> when \<open>f\<close> can throw: the first exception leaves the map.\<close>

fun map_exn :: "('a \<Rightarrow> exn + 'b) \<Rightarrow> 'a list \<Rightarrow> exn + 'b list" where
  "map_exn f [] = Inr []"
| "map_exn f (x # xs) =
     (case f x of
        Inl e \<Rightarrow> Inl e
      | Inr y \<Rightarrow> (case map_exn f xs of Inl e \<Rightarrow> Inl e | Inr ys \<Rightarrow> Inr (y # ys)))"

definition enhancedKeywordSearch :: "string \<Rightarrow> EnhancedChunk list \<Rightarrow> exn + EnhancedChunk list" where
  "enhancedKeywordSearch query chunks =
     (case map_exn (\<lambda>c. case calculateKeywordRelevance query
                              (chunk_text c @ '' '' @ chunk_context c) of
                           Inl e \<Rightarrow> Inl e | Inr score \<Rightarrow> Inr (c, score)) chunks of
        Inl e \<Rightarrow> Inl e
      | Inr scored \<Rightarrow>
          Inr (map fst (take 8 (sort_by (\<lambda>a b. js_sub (snd b) (snd a))
                 (filter (\<lambda>result. js_gt (snd result) (Fin 0.3)) scored)))))"

definition calculateEnhancedRelevance ::
  "string \<Rightarrow> EnhancedChunk \<Rightarrow> vector option \<Rightarrow> exn + jsnum" where
  "calculateEnhancedRelevance query c queryEmbedding =
     (let score = Fin 0;
          score = (case (queryEmbedding, embedding c) of
                     (Some qe, Some ce) \<Rightarrow>
                       js_add score (js_mul (cosineSimilarity (Some qe) (Some ce)) (Fin 0.4))
                   | _ \<Rightarrow> score)
      in case calculateKeywordRelevance query (chunk_text c) of
           Inl e \<Rightarrow> Inl e
         | Inr keywordScore \<Rightarrow>
             let score = js_add score (js_mul keywordScore (Fin 0.3));
                 queryTopics = extractTopics query;
                 topicOverlap = length (filter (\<lambda>topic. topic \<in> set queryTopics) (topics c));
                 topicScore = (if 0 < length queryTopics
                               then js_div (Fin (real topicOverlap)) (Fin (real (length queryTopics)))
                               else Fin 0.5);
                 score = js_add score (js_mul topicScore (Fin 0.2))
             in case calculateKeywordRelevance query (chunk_context c) of
                  Inl e \<Rightarrow> Inl e
                | Inr contextScore \<Rightarrow>
                    Inr (js_min (js_add score (js_mul contextScore (Fin 0.1))) (Fin 1)))"

definition determineConfidenceLevel :: "jsnum \<Rightarrow> EnhancedChunk \<Rightarrow> string \<Rightarrow> confidence" where
  "determineConfidenceLevel score c query =
     (if js_gt score (Fin 0.7) \<and> 0 < length (topics c)
         \<and> (\<exists>topic \<in> set (extractTopics query). topic \<in> set (topics c))
      then High
      else if js_gt score (Fin 0.5) then Medium
      else Low)"

definition findKeywordMatches :: "string \<Rightarrow> string \<Rightarrow> string list" where
  "findKeywordMatches query t =
     filter (\<lambda>word. includes_str (toLowerCase t) word) (queryWords query)"

definition explainMatch :: "string \<Rightarrow> EnhancedChunk \<Rightarrow> jsnum \<Rightarrow> string" where
  "explainMatch query c score =
     (let matchingTopics = filter (\<lambda>topic. topic \<in> set (extractTopics query)) (topics c);
          reasons = (if 0 < length (topics c) \<and> 0 < length matchingTopics
                     then [''Topic match: '' @ join '', '' matchingTopics] else []);
          keywordMatches = findKeywordMatches query (chunk_text c);
          reasons = (if 0 < length keywordMatches
                     then reasons @ [''Keywords: '' @ join '', '' (take 3 keywordMatches)]
                     else reasons);
          reasons = (if js_gt score (Fin 0.7) then reasons @ [''High semantic similarity'']
                     else reasons)
      in if 0 < length reasons then join ''; '' reasons else ''General relevance'')"

text \<open>
  Stage 4 of \<open>performMultiStageRetrieval\<close>: the \<open>Map\<close> from the key
  \<open>`${chunk.episode}-${chunk.index}`\<close> to the first chunk that had it. A \<open>Map\<close> keeps its
  keys in the order of their first insertion, so it is a list of pairs.
\<close>

definition candidate_key :: "EnhancedChunk \<Rightarrow> string" where
  "candidate_key c = episode c @ ''-'' @ show_nat (index c)"

fun unique_candidates ::
  "EnhancedChunk list \<Rightarrow> (string \<times> EnhancedChunk) list \<Rightarrow> (string \<times> EnhancedChunk) list" where
  "unique_candidates [] uniqueCandidatesMap = uniqueCandidatesMap"
| "unique_candidates (c # cs) uniqueCandidatesMap =
     (let key = candidate_key c
      in if map_of uniqueCandidatesMap key = None
         then unique_candidates cs (uniqueCandidatesMap @ [(key, c)])
         else unique_candidates cs uniqueCandidatesMap)"

definition fuse_candidates :: "EnhancedChunk list \<Rightarrow> EnhancedChunk list \<Rightarrow> EnhancedChunk list" where
  "fuse_candidates semanticCandidates keywordCandidates =
     map snd (unique_candidates (semanticCandidates @ keywordCandidates) [])"

text \<open>Stages 1 and 2: the topic filter and the semantic candidates.\<close>

definition topic_filter :: "EnhancedChunk list \<Rightarrow> string \<Rightarrow> EnhancedChunk list" where
  "topic_filter enhancedChunks query =
     (let queryTopics = extractTopics query
      in if 0 < length queryTopics
         then filter (\<lambda>c. \<exists>topic \<in> set (topics c). topic \<in> set queryTopics) enhancedChunks
         else enhancedChunks)"

definition semantic_candidates :: "vector option \<Rightarrow> EnhancedChunk list \<Rightarrow> EnhancedChunk list" where
  "semantic_candidates queryEmbedding topicFilteredChunks =
     (case queryEmbedding of
        None \<Rightarrow> []
      | Some qe \<Rightarrow>
          map fst (take 10 (sort_by (\<lambda>a b. js_sub (snd b) (snd a))
            (filter (\<lambda>result. js_gt (snd result) (Fin 0.25))
               (map (\<lambda>c. (c, cosineSimilarity (Some qe)
                               (case embedding c of Some v \<Rightarrow> Some v | None \<Rightarrow> Some [])))
                  (filter (\<lambda>c. embedding c \<noteq> None) topicFilteredChunks))))))"

text \<open>The loop over the fused candidates: score, confidence, reason, and the floor 0.3.\<close>

definition score_candidate ::
  "string \<Rightarrow> vector option \<Rightarrow> EnhancedChunk \<Rightarrow> exn + RetrievalResult" where
  "score_candidate query queryEmbedding c =
     (case calculateEnhancedRelevance query c queryEmbedding of
        Inl e \<Rightarrow> Inl e
      | Inr score \<Rightarrow>
          Inr \<lparr>chunk = c, relevanceScore = score,
               confidenceLevel = determineConfidenceLevel score c query,
               matchReason = explainMatch query c score\<rparr>)"

definition retained_results ::
  "string \<Rightarrow> vector option \<Rightarrow> EnhancedChunk list \<Rightarrow> exn + RetrievalResult list" where
  "retained_results query queryEmbedding allCandidates =
     (case map_exn (score_candidate query queryEmbedding) allCandidates of
        Inl e \<Rightarrow> Inl e
      | Inr scored \<Rightarrow> Inr (filter (\<lambda>r. js_gt (relevanceScore r) (Fin 0.3)) scored))"

definition all_candidates ::
  "vector option \<Rightarrow> EnhancedChunk list \<Rightarrow> string \<Rightarrow> exn + EnhancedChunk list" where
  "all_candidates queryEmbedding enhancedChunks query =
     (let topicFilteredChunks = topic_filter enhancedChunks query;
          semanticCandidates = semantic_candidates queryEmbedding topicFilteredChunks
      in case enhancedKeywordSearch query topicFilteredChunks of
           Inl e \<Rightarrow> Inl e
         | Inr keywordCandidates \<Rightarrow> Inr (fuse_candidates semanticCandidates keywordCandidates))"

definition performMultiStageRetrieval ::
  "string option \<Rightarrow> (string \<Rightarrow> api_outcome) \<Rightarrow> EnhancedChunk list \<Rightarrow> string
     \<Rightarrow> exn + RetrievalResult list" where
  "performMultiStageRetrieval OPENAI_API_KEY api enhancedChunks query =
     (let queryEmbedding = getEmbedding OPENAI_API_KEY api query
      in case all_candidates queryEmbedding enhancedChunks query of
           Inl e \<Rightarrow> Inl e
         | Inr allCandidates \<Rightarrow>
             (case retained_results query queryEmbedding allCandidates of
                Inl e \<Rightarrow> Inl e
              | Inr results \<Rightarrow>
                  Inr (take 5 (sort_by (\<lambda>a b. js_sub (relevanceScore b) (relevanceScore a))
                         results))))"

section \<open>Keyword search of the simple system\<close>

text \<open>
  \<open>searchByKeywordsEnhanced\<close> as the improved original system has it: occurrences are
  counted, an exact phrase adds 5, and a coverage below 0.3 halves the score. The
  global \<open>chunks\<close> is an argument.
\<close>

fun keyword_search_loop :: "string list \<Rightarrow> string \<Rightarrow> real \<times> nat \<Rightarrow> exn + real \<times> nat" where
  "keyword_search_loop [] t acc = Inr acc"
| "keyword_search_loop (word # ws) t (score, matchedWords) =
     (case match_count word t of
        Inl e \<Rightarrow> Inl e
      | Inr matches \<Rightarrow>
          if 0 < matches
          then keyword_search_loop ws t (score + real matches, Suc matchedWords)
          else keyword_search_loop ws t (score, matchedWords))"

definition keyword_search_score :: "string \<Rightarrow> string list \<Rightarrow> Chunk \<Rightarrow> exn + Chunk \<times> real" where
  "keyword_search_score query ws c =
     (let t = toLowerCase (chunk_text c)
      in case keyword_search_loop ws t (0, 0) of
           Inl e \<Rightarrow> Inl e
         | Inr (score, matchedWords) \<Rightarrow>
             let score = (if includes_str t (toLowerCase query) then score + 5 else score);
                 coverage = real matchedWords / real (length ws);
                 score = (if coverage < 0.3 then score * 0.5 else score)
             in Inr (c, score))"

definition searchByKeywordsEnhanced :: "Chunk list \<Rightarrow> string \<Rightarrow> exn + Chunk list" where
  "searchByKeywordsEnhanced cs query =
     (let ws = queryWords query
      in if length ws = 0 then Inr []
         else (case map_exn (keyword_search_score query ws) cs of
                 Inl e \<Rightarrow> Inl e
               | Inr results \<Rightarrow>
                   Inr (map fst (take 3 (sort_by (\<lambda>a b. Fin (snd b - snd a))
                          (filter (\<lambda>result. 0.5 < snd result) results))))))"

section \<open>Corpus load of the simple system\<close>

text \<open>
  The module state, and what \<open>initialize\<close> reads from outside: the directory listing
  (\<open>None\<close> when \<open>readdir\<close> throws), the files (\<open>None\<close> when \<open>readFile\<close> throws), the two
  credentials, and the embedding provider, whose answer to the request made in
  iteration \<open>i\<close> of the bulk pass is \<open>embeddings_api w i\<close>.
\<close>

record app_state =
  chunks :: "Chunk list"
  enhancedChunks :: "EnhancedChunk list"
  isReady :: bool
  isEnhancedReady :: bool
  initError :: "string option"

record world =
  transcriptPath :: string
  readdir :: "string list option"
  readFile :: "string \<Rightarrow> string option"
  openai_key :: "string option"
  groq_key :: "string option"
  embeddings_api :: "nat \<Rightarrow> string \<Rightarrow> api_outcome"

text \<open>A string or \<open>null\<close> used as a condition: true for a string that is not empty.\<close>

definition truthy :: "string option \<Rightarrow> bool" where
  "truthy v = (case v of None \<Rightarrow> False | Some str \<Rightarrow> str \<noteq> [])"

text \<open>\<open>s.replace(pattern, replacement)\<close> for a string pattern: the first occurrence.\<close>

fun replace_first :: "string \<Rightarrow> string \<Rightarrow> string \<Rightarrow> string" where
  "replace_first [] pat rep = (if pat = [] then rep else [])"
| "replace_first (c # cs) pat rep =
     (if startsWith (c # cs) pat then rep @ drop (length pat) (c # cs)
      else c # replace_first cs pat rep)"

text \<open>
  The fixed-width chunker: the loop \<open>for (let i = 0; i < content.length; i += chunkSize)\<close>
  with \<open>chunkSize = 500\<close>.
\<close>

function chunk_loop :: "string \<Rightarrow> string \<Rightarrow> nat \<Rightarrow> nat \<Rightarrow> Chunk list" where
  "chunk_loop content episodeName i chunkIndex =
     (if i < length content then
        (let chunkText = trim (take 500 (drop i content))
         in if 50 < length chunkText
            then \<lparr>chunk_text = chunkText, episode = episodeName, index = chunkIndex,
                  embedding = None\<rparr>
                 # chunk_loop content episodeName (i + 500) (Suc chunkIndex)
            else chunk_loop content episodeName (i + 500) chunkIndex)
      else [])"
  by pat_completeness auto
termination
  by (relation "measure (\<lambda>(content, episodeName, i, chunkIndex). length content - i)") auto

declare chunk_loop.simps [simp del]

text \<open>The loop over the files; a file that cannot be read or is too short is skipped.\<close>

fun load_files :: "(string \<Rightarrow> string option) \<Rightarrow> string list \<Rightarrow> Chunk list" where
  "load_files rf [] = []"
| "load_files rf (filename # files) =
     (case rf filename of
        None \<Rightarrow> load_files rf files
      | Some content \<Rightarrow>
          let episodeName = replace_first filename ''.txt'' []
          in if length (trim content) < 100 then load_files rf files
             else chunk_loop content episodeName 0 0 @ load_files rf files)"

text \<open>
  The bulk embedding pass over \<open>chunksToEmbed\<close>, from iteration \<open>i\<close> on, with the counters
  \<open>embeddedCount\<close> and \<open>consecutiveFailures\<close>. It returns the units as the pass leaves
  them, \<open>embeddedCount\<close>, and the number of iterations that were entered, each of which
  calls \<open>getEmbedding\<close> once.
\<close>

fun embed_loop ::
  "string option \<Rightarrow> (nat \<Rightarrow> string \<Rightarrow> api_outcome) \<Rightarrow> nat \<Rightarrow> Chunk list \<Rightarrow> nat \<Rightarrow> nat
     \<Rightarrow> Chunk list \<times> nat \<times> nat" where
  "embed_loop key api i [] embeddedCount consecutiveFailures = ([], embeddedCount, i)"
| "embed_loop key api i (c # rest) embeddedCount consecutiveFailures =
     (case getEmbedding key (api i) (chunk_text c) of
        Some emb \<Rightarrow>
          (case embed_loop key api (Suc i) rest (Suc embeddedCount) 0 of
             (cs, n, entered) \<Rightarrow> (c\<lparr>embedding := Some emb\<rparr> # cs, n, entered))
      | None \<Rightarrow>
          if 5 \<le> Suc consecutiveFailures then (c # rest, embeddedCount, Suc i)
          else (case embed_loop key api (Suc i) rest embeddedCount (Suc consecutiveFailures) of
                  (cs, n, entered) \<Rightarrow> (c # cs, n, entered)))"

text \<open>
  \<open>initialize\<close>. Nothing inside the outer \<open>try\<close> throws in this model (reading a file and
  requesting an embedding have their own handlers), so its \<open>catch\<close> has no branch.
\<close>

definition initialize :: "world \<Rightarrow> app_state \<Rightarrow> app_state" where
  "initialize w s =
     (if isReady s \<or> truthy (initError s) then s
      else
        (case readdir w of
           None \<Rightarrow>
             s\<lparr>initError := Some (''Cannot access transcript directory: '' @ transcriptPath w)\<rparr>
         | Some listing \<Rightarrow>
             let files = filter (\<lambda>f. endsWith f ''.txt'') listing
             in if length files = 0
                then s\<lparr>initError := Some ''No .txt transcript files found''\<rparr>
                else
                  let created = load_files (readFile w) files;
                      totalChunks = length created;
                      s = s\<lparr>chunks := chunks s @ created\<rparr>
                  in if totalChunks = 0
                     then s\<lparr>initError := Some ''No valid content chunks created from transcripts''\<rparr>
                     else
                       (case embed_loop (openai_key w) (embeddings_api w) 0
                               (take 50 (chunks s)) 0 0 of
                          (chunksToEmbed, embeddedCount, entered) \<Rightarrow>
                            s\<lparr>chunks := chunksToEmbed @ drop 50 (chunks s), isReady := True\<rparr>)))"

text \<open>
  \<open>getSystemStatus\<close>: the object that \<open>JSON.stringify\<close> prints, and the state it leaves.
  \<open>getAvailableTopics\<close> collects the topics of the enhanced corpus in a \<open>Set\<close>, which keeps
  the order of first insertion.
\<close>

record system_status =
  ready :: bool
  enhancedReady :: bool
  error :: "string option"
  totalChunks :: nat
  enhancedChunkCount :: nat
  embeddedChunks :: nat
  enhancedEmbeddedChunks :: nat
  hasGroqKey :: bool
  hasOpenAIKey :: bool
  availableTopics :: "string list"

fun set_add_all :: "string list \<Rightarrow> string list \<Rightarrow> string list" where
  "set_add_all allTopicsSet [] = allTopicsSet"
| "set_add_all allTopicsSet (t # ts) =
     set_add_all (if t \<in> set allTopicsSet then allTopicsSet else allTopicsSet @ [t]) ts"

definition getAvailableTopics :: "EnhancedChunk list \<Rightarrow> string list" where
  "getAvailableTopics ecs = take 10 (set_add_all [] (concat (map topics ecs)))"

definition status_of :: "world \<Rightarrow> app_state \<Rightarrow> system_status" where
  "status_of w s =
     \<lparr>ready = isReady s,
      enhancedReady = isEnhancedReady s,
      error = initError s,
      totalChunks = length (chunks s),
      enhancedChunkCount = length (enhancedChunks s),
      embeddedChunks = length (filter (\<lambda>c. embedding c \<noteq> None) (chunks s)),
      enhancedEmbeddedChunks = length (filter (\<lambda>c. embedding c \<noteq> None) (enhancedChunks s)),
      hasGroqKey = truthy (groq_key w),
      hasOpenAIKey = truthy (openai_key w),
      availableTopics = (if isEnhancedReady s then getAvailableTopics (enhancedChunks s) else [])\<rparr>"

definition getSystemStatus :: "world \<Rightarrow> app_state \<Rightarrow> system_status \<times> app_state" where
  "getSystemStatus w s = (let s = initialize w s in (status_of w s, s))"

section \<open>Smart chunker\<close>

text \<open>
  \<open>content.split(/\n\s*\n|\n(?=[A-Z][a-z]*:)/)\<close>. At a line feed the first alternative
  takes the white space that follows up to its last line feed; when that white space
  holds no line feed, the second alternative takes the line feed alone if a capital
  letter, lower-case letters and a colon follow. A match closes the current piece.
\<close>

definition speaker_lookahead :: "string \<Rightarrow> bool" where
  "speaker_lookahead s =
     (case s of [] \<Rightarrow> False | c # cs \<Rightarrow> is_upper c \<and> startsWith (dropWhile is_lower cs) '':'')"

definition blank_lines_length :: "string \<Rightarrow> nat" where
  "blank_lines_length run = length run - length (takeWhile (\<lambda>d. d \<noteq> CHR 0x0A) (rev run))"

function split_sections :: "string \<Rightarrow> string \<Rightarrow> string list" where
  "split_sections acc [] = [rev acc]"
| "split_sections acc (c # cs) =
     (if c = CHR 0x0A then
        (let run = takeWhile is_space cs
         in if CHR 0x0A \<in> set run
            then rev acc # split_sections [] (drop (blank_lines_length run) cs)
            else if speaker_lookahead cs then rev acc # split_sections [] cs
            else split_sections (c # acc) cs)
      else split_sections (c # acc) cs)"
  by pat_completeness auto
termination
  by (relation "measure (\<lambda>(acc, s). length s)") auto

declare split_sections.simps(2) [simp del]

definition is_sentence_end :: "char \<Rightarrow> bool" where
  "is_sentence_end c = (c = CHR ''.'' \<or> c = CHR ''!'' \<or> c = CHR ''?'')"

text \<open>
  \<open>text.match(/^([A-Z][a-z\s]+):\s*(.+)/)\<close>: a capital letter, the longest run of
  lower-case letters and white space (one at least), a colon, white space, and the rest
  of the line (one character at least). \<open>\s*\<close> first takes all the white space and gives
  characters back until a character that is no line terminator follows.
\<close>

definition line_from :: "nat \<Rightarrow> string \<Rightarrow> string option" where
  "line_from k s =
     (case drop k s of
        [] \<Rightarrow> None
      | d # ds \<Rightarrow> if is_line_terminator d then None
                  else Some (takeWhile (\<lambda>x. \<not> is_line_terminator x) (d # ds)))"

fun rest_of_line :: "nat \<Rightarrow> string \<Rightarrow> string option" where
  "rest_of_line 0 s = line_from 0 s"
| "rest_of_line (Suc k) s =
     (case line_from (Suc k) s of Some r \<Rightarrow> Some r | None \<Rightarrow> rest_of_line k s)"

definition speaker_match :: "string \<Rightarrow> (string \<times> string) option" where
  "speaker_match t =
     (case t of
        [] \<Rightarrow> None
      | c # cs \<Rightarrow>
          if \<not> is_upper c then None
          else
            (let name = takeWhile (\<lambda>d. is_lower d \<or> is_space d) cs;
                 after = dropWhile (\<lambda>d. is_lower d \<or> is_space d) cs
             in if name = [] then None
                else (case after of
                        [] \<Rightarrow> None
                      | d # ds \<Rightarrow>
                          if d \<noteq> CHR '':'' then None
                          else (case rest_of_line (length (takeWhile is_space ds)) ds of
                                  None \<Rightarrow> None
                                | Some r \<Rightarrow> Some (c # name, r)))))"

text \<open>
  \<open>text.match(/\[(\d{1,2}:\d{2}(?::\d{2})?)\]/)\<close>: the group of the leftmost match.
\<close>

definition timestamp_at :: "string \<Rightarrow> string option" where
  "timestamp_at s =
     (case s of
        [] \<Rightarrow> None
      | b # r \<Rightarrow>
          if b \<noteq> CHR ''['' then None
          else
            (let h = takeWhile is_digit (take 2 r); r1 = drop (length h) r
             in if h = [] then None
                else (case r1 of
                        c1 # m1 # m2 # r2 \<Rightarrow>
                          if c1 = CHR '':'' \<and> is_digit m1 \<and> is_digit m2
                          then (if startsWith r2 '']'' then Some (h @ [c1, m1, m2])
                                else (case r2 of
                                        c2 # s1 # s2 # r3 \<Rightarrow>
                                          if c2 = CHR '':'' \<and> is_digit s1 \<and> is_digit s2
                                             \<and> startsWith r3 '']''
                                          then Some (h @ [c1, m1, m2, c2, s1, s2])
                                          else None
                                      | _ \<Rightarrow> None))
                          else None
                      | _ \<Rightarrow> None)))"

fun find_timestamp :: "string \<Rightarrow> string option" where
  "find_timestamp [] = None"
| "find_timestamp (c # cs) =
     (case timestamp_at (c # cs) of Some t \<Rightarrow> Some t | None \<Rightarrow> find_timestamp cs)"

text \<open>
  \<open>episodeName.replace(/[-_]/g, ' ').replace(/\b\w/g, l => l.toUpperCase())\<close>: a word
  character that follows no word character is put in upper case.
\<close>

definition upper_char :: "char \<Rightarrow> char" where
  "upper_char c = (if is_lower c then char_of ((of_char c :: nat) - 32) else c)"

fun capitalize_words :: "bool \<Rightarrow> string \<Rightarrow> string" where
  "capitalize_words after_word [] = []"
| "capitalize_words after_word (c # cs) =
     (if is_word_char c \<and> \<not> after_word then upper_char c else c)
     # capitalize_words (is_word_char c) cs"

definition formatEpisodeTitle :: "string \<Rightarrow> string" where
  "formatEpisodeTitle episodeName =
     capitalize_words False
       (map (\<lambda>c. if c = CHR ''-'' \<or> c = CHR ''_'' then CHR '' '' else c) episodeName)"

definition createChunkWithMetadata ::
  "string \<Rightarrow> string \<Rightarrow> nat \<Rightarrow> string \<Rightarrow> string \<Rightarrow> EnhancedChunk" where
  "createChunkWithMetadata t episodeName idx prevContext nextContext =
     (case (case speaker_match t of
              None \<Rightarrow> (Unknown, None, t)
            | Some (name, rest) \<Rightarrow>
                let speakerName = toLowerCase name
                in if includes_str speakerName ''nikhil'' \<or> includes_str speakerName ''host''
                   then (Host, None, rest)
                   else (Guest, Some name, rest)) of
        (spk, guest, cleanText) \<Rightarrow>
          \<lparr>chunk_text = cleanText,
           episode = episodeName,
           index = idx,
           embedding = None,
           episodeTitle = formatEpisodeTitle episodeName,
           speaker = spk,
           guestName = guest,
           timestamp = find_timestamp t,
           topics = extractTopics (cleanText @ '' '' @ prevContext @ '' '' @ nextContext),
           chunk_context = prevContext @ '' [...] '' @ nextContext\<rparr>)"

text \<open>
  The loop over the sentences of a long section: it returns the units it pushed, the
  buffer \<open>currentChunk\<close> and the next index.
\<close>

fun sentence_loop ::
  "string \<Rightarrow> string \<Rightarrow> string \<Rightarrow> string list \<Rightarrow> string \<Rightarrow> nat
     \<Rightarrow> EnhancedChunk list \<times> string \<times> nat" where
  "sentence_loop episodeName prevContext nextContext [] currentChunk chunkIndex =
     ([], currentChunk, chunkIndex)"
| "sentence_loop episodeName prevContext nextContext (sentence # rest) currentChunk chunkIndex =
     (if 600 < length (currentChunk @ sentence) then
        (if trim currentChunk \<noteq> [] then
           (case sentence_loop episodeName prevContext nextContext rest sentence
                   (Suc chunkIndex) of
              (cs, cur, k) \<Rightarrow>
                (createChunkWithMetadata (trim currentChunk) episodeName chunkIndex
                   prevContext nextContext # cs, cur, k))
         else sentence_loop episodeName prevContext nextContext rest sentence chunkIndex)
      else sentence_loop episodeName prevContext nextContext rest
             (currentChunk @ sentence @ ''. '') chunkIndex)"

function section_loop :: "string \<Rightarrow> string list \<Rightarrow> nat \<Rightarrow> nat \<Rightarrow> EnhancedChunk list" where
  "section_loop episodeName sections i chunkIndex =
     (if i < length sections then
        (let section = trim (sections ! i);
             prevContext = (if 0 < i then drop (length (sections ! (i - 1)) - 100)
                                            (sections ! (i - 1)) else []);
             nextContext = (if i < length sections - 1 then take 100 (sections ! (i + 1)) else [])
         in if 800 < length section then
              (let sentences = filter (\<lambda>s. 20 < length (trim s))
                                 (split_runs is_sentence_end [] section False)
               in case sentence_loop episodeName prevContext nextContext sentences []
                         chunkIndex of
                    (cs, currentChunk, k) \<Rightarrow>
                      if trim currentChunk \<noteq> []
                      then cs @ createChunkWithMetadata (trim currentChunk) episodeName k
                                  prevContext nextContext
                              # section_loop episodeName sections (Suc i) (Suc k)
                      else cs @ section_loop episodeName sections (Suc i) k)
            else createChunkWithMetadata section episodeName chunkIndex prevContext nextContext
                 # section_loop episodeName sections (Suc i) (Suc chunkIndex))
      else [])"
  by pat_completeness auto
termination
  by (relation "measure (\<lambda>(episodeName, sections, i, chunkIndex). length sections - i)") auto

declare section_loop.simps [simp del]

definition createSmartChunks :: "string \<Rightarrow> string \<Rightarrow> EnhancedChunk list" where
  "createSmartChunks content episodeName =
     section_loop episodeName
       (filter (\<lambda>s. 50 < length (trim s)) (split_sections [] content)) 0 0"

section \<open>Properties\<close>

subsection \<open>Evaluation rules\<close>

lemmas char_simps = char_of_def bit_Suc_0_iff

lemmas tokenize_simps =
  queryWords_def split_spaces_def toLowerCase_def lower_char_def is_space_def char_simps

lemmas regexp_simps =
  match_count_def RegExp_def quantifier_bounds_def close_disjunction_def
  count_matches_def count_from.simps is_line_terminator_def is_alnum_def

lemmas topic_simps =
  extractTopics_def topicPatterns_def pattern_test_def toLowerCase_def lower_char_def char_simps

subsection \<open>Rounding\<close>


lemma round_half_even_int: "round_half_even (of_int k) = k"
  by (simp add: round_half_even_def)

lemma powi_eq_powr: "(2::real) powi k = 2 powr real_of_int k"
  by (simp add: powr_real_of_int')

lemma powi_pos: "0 < (2::real) powi k"
  by (simp add: powi_eq_powr)

lemma powi_add: "(2::real) powi (a + b) = 2 powi a * 2 powi b"
  by (simp add: powi_eq_powr powr_add)

lemma powi_mono: "a \<le> b \<Longrightarrow> (2::real) powi a \<le> 2 powi b"
  by (simp add: powi_eq_powr)

lemma powi_nat: "(2::real) powi (int n) = 2 ^ n"
  by simp

lemma floor_log_bounds:
  assumes "0 < x"
  shows "2 powi \<lfloor>log 2 x\<rfloor> \<le> x" "x < 2 powi (\<lfloor>log 2 x\<rfloor> + 1)"
  using floor_log_eq_powr_iff [of x 2 "\<lfloor>log 2 x\<rfloor>"] assms
  by (simp_all add: powi_eq_powr)

lemma floor_log_eq:
  "2 powi k \<le> x \<Longrightarrow> x < 2 powi (k + 1) \<Longrightarrow> \<lfloor>log 2 x\<rfloor> = k"
proof -
  assume a: "2 powi k \<le> x" "x < 2 powi (k + 1)"
  then have "0 < x" using powi_pos [of k] by linarith
  with a floor_log_eq_powr_iff [of x 2 k] show ?thesis by (simp add: powi_eq_powr)
qed





text \<open>A number with a significand of 53 bits and an exponent of the range is its own rounding.\<close>

lemma round_double_exact:
  assumes n: "\<bar>n\<bar> < 2 ^ 53" and e: "- 1074 \<le> e" and hi: "\<bar>of_int n * 2 powi e\<bar> < (2::real) ^ 1024"
  shows "round_double (of_int n * 2 powi e) = Fin (of_int n * 2 powi e)"
proof (cases "n = 0")
  case True
  then show ?thesis by (simp add: round_double_def)
next
  case False
  define x :: real where "x = of_int n * 2 powi e"
  from False have xn: "x \<noteq> 0" using powi_pos [of e] by (simp add: x_def)
  then have pos: "0 < \<bar>x\<bar>" by simp
  have "\<bar>x\<bar> = \<bar>of_int n\<bar> * 2 powi e" using powi_pos [of e] by (simp add: x_def abs_mult)
  moreover have "\<bar>real_of_int n\<bar> < 2 ^ 53" using n by (metis of_int_abs of_int_less_numeral_power_cancel_iff)
  ultimately have "\<bar>x\<bar> < 2 ^ 53 * 2 powi e" using powi_pos [of e] by simp
  also have "\<dots> = 2 powi (e + 53)" using powi_add [of e 53] by simp
  finally have up: "\<bar>x\<bar> < 2 powi (e + 53)" .
  have "\<lfloor>log 2 \<bar>x\<bar>\<rfloor> < e + 53"
  proof (rule ccontr)
    assume "\<not> \<lfloor>log 2 \<bar>x\<bar>\<rfloor> < e + 53"
    then have "e + 53 \<le> \<lfloor>log 2 \<bar>x\<bar>\<rfloor>" by (simp only: not_less)
    from powi_mono [OF this] floor_log_bounds(1) [OF pos] up show False by linarith
  qed
  with e have be: "binade x - 52 \<le> e" by (simp add: binade_def)
  define k where "k = nat (e - (binade x - 52))"
  define q :: real where "q = 2 powi (binade x - 52)"
  have qpos: "0 < q" by (simp add: q_def powi_pos)
  from be have "e = (binade x - 52) + int k" by (simp add: k_def)
  then have "2 powi e = q * 2 ^ k" using powi_add [of "binade x - 52" "int k"] by (simp add: q_def)
  then have xq: "x = of_int (n * 2 ^ k) * q" by (simp add: x_def)
  then have "x / q = of_int (n * 2 ^ k)" using qpos by simp
  then have "of_int (round_half_even (x / q)) * q = x"
    by (simp only: round_half_even_int xq [symmetric])
  with hi xn show ?thesis
    unfolding x_def [symmetric] by (simp add: round_double_def Let_def q_def [symmetric] abs_less_iff)
qed

lemma round_double_of_int: "\<bar>n\<bar> < 2 ^ 53 \<Longrightarrow> round_double (of_int n) = Fin (of_int n)"
proof -
  assume n: "\<bar>n\<bar> < 2 ^ 53"
  then have "\<bar>real_of_int n\<bar> < 2 ^ 53" by (metis of_int_abs of_int_less_numeral_power_cancel_iff)
  also have "\<dots> < (2::real) ^ 1024" by simp
  finally have "\<bar>of_int n * 2 powi 0\<bar> < (2::real) ^ 1024" by simp
  from round_double_exact [OF n _ this] show ?thesis by simp
qed

lemma round_double_numeral [simp]:
  "numeral k < (2::int) ^ 53 \<Longrightarrow> round_double (numeral k) = Fin (numeral k)"
  using round_double_of_int [of "numeral k"] by simp

lemma round_double_0 [simp]: "round_double 0 = Fin 0"
  by (simp add: round_double_def)

lemma round_double_1 [simp]: "round_double 1 = Fin 1"
  using round_double_of_int [of 1] by simp

lemma round_double_half [simp]: "round_double (1 / 2) = Fin (1 / 2)"
  using round_double_exact [of 1 "- 1"] by (simp add: power_int_minus)





subsection \<open>Semantic scorer\<close>


fun sum_squares :: "jsnum \<Rightarrow> vector \<Rightarrow> jsnum" where
  "sum_squares m (x # xs) = sum_squares (double_add m (double_mul (Fin x) (Fin x))) xs"
| "sum_squares m [] = m"


definition squared_magnitude :: "vector \<Rightarrow> jsnum" where
  "squared_magnitude a = sum_squares (Fin 0) a"











lemmas double_simps =
  double_add_def double_mul_def double_div_def squared_magnitude_def










subsection \<open>Lexical scorers\<close>

text \<open>
  Claim C5. A query without a word longer than two characters does not score 0. The
  divisor \<open>queryWords.length * 2\<close> of \<open>calculateKeywordRelevance\<close> is 0: the phrase bonus
  divided by it is \<open>Infinity\<close>, capped to 1, and a score of 0 divided by it is NaN.
  \<open>calculateContentRelevance\<close> divides the phrase bonus by the length of the text and
  reaches 1 as well; on the empty text it returns NaN.
\<close>

theorem wordless_query_scores:
  "calculateKeywordRelevance [] ''hello world'' = Inr (Fin 1)
   \<and> calculateKeywordRelevance ''hi'' ''oh hi there'' = Inr (Fin 1)
   \<and> calculateKeywordRelevance ''hi'' ''hello'' = Inr NaN
   \<and> calculateContentRelevance ''hi'' ''oh hi there'' = Inr (Fin 1)
   \<and> calculateContentRelevance ''hi'' [] = Inr NaN"
  by (simp add: calculateKeywordRelevance_def calculateContentRelevance_def tokenize_simps)

text \<open>
  Claim C10. A query word is compiled as a pattern. The words \<open>c++\<close> (a quantifier with
  nothing to repeat) and \<open>(how\<close> (a group that is not closed) are longer than two
  characters and are no patterns: the constructor throws, and with it both scorers on
  every text and the keyword search on every corpus that has a chunk.
\<close>

theorem metacharacter_word_throws:
  "calculateKeywordRelevance ''c++'' t = Inl SyntaxError
   \<and> calculateKeywordRelevance ''(how'' t = Inl SyntaxError
   \<and> calculateContentRelevance ''c++'' t = Inl SyntaxError
   \<and> calculateContentRelevance ''(how'' t = Inl SyntaxError
   \<and> searchByKeywordsEnhanced (c # cs) ''c++'' = Inl SyntaxError
   \<and> searchByKeywordsEnhanced (c # cs) ''(how'' = Inl SyntaxError"
  by (simp add: calculateKeywordRelevance_def calculateContentRelevance_def
      searchByKeywordsEnhanced_def keyword_search_score_def tokenize_simps regexp_simps)

theorem metacharacter_word_throws_witness:
  "calculateKeywordRelevance ''c++'' ''we use c++ here'' = Inl SyntaxError
   \<and> calculateContentRelevance ''(how'' ''how to raise money'' = Inl SyntaxError
   \<and> searchByKeywordsEnhanced
        [\<lparr>chunk_text = ''we use c++ here'', episode = ''ep1'', index = 0, embedding = None\<rparr>]
        ''c++'' = Inl SyntaxError"
  using metacharacter_word_throws [of "''we use c++ here''"
      "\<lparr>chunk_text = ''we use c++ here'', episode = ''ep1'', index = 0, embedding = None\<rparr>" "[]"]
    metacharacter_word_throws [of "''how to raise money''"
      "\<lparr>chunk_text = ''we use c++ here'', episode = ''ep1'', index = 0, embedding = None\<rparr>" "[]"]
  by simp

subsection \<open>Composite relevance\<close>

text \<open>
  The composite score in the words of the specification: the semantic signal is the
  cosine similarity, or 0 when an embedding is absent; the topic signal is the share of
  the query's topics among the topics of the unit, or 0.5 when the query has none.
\<close>

definition semantic_signal :: "vector option \<Rightarrow> vector option \<Rightarrow> jsnum" where
  "semantic_signal queryEmbedding chunkEmbedding =
     (if queryEmbedding = None \<or> chunkEmbedding = None then Fin 0
      else cosineSimilarity queryEmbedding chunkEmbedding)"

definition topic_overlap_ratio :: "string list \<Rightarrow> string list \<Rightarrow> jsnum" where
  "topic_overlap_ratio queryTopics chunkTopics =
     (if queryTopics = [] then Fin 0.5
      else Fin (real (length (filter (\<lambda>t. t \<in> set queryTopics) chunkTopics))
                / real (length queryTopics)))"

definition composite_score :: "jsnum \<Rightarrow> jsnum \<Rightarrow> jsnum \<Rightarrow> jsnum \<Rightarrow> jsnum" where
  "composite_score semantic lexical topic context_lexical =
     js_min (js_add (js_add (js_add (js_mul semantic (Fin 0.4)) (js_mul lexical (Fin 0.3)))
                       (js_mul topic (Fin 0.2)))
               (js_mul context_lexical (Fin 0.1)))
            (Fin 1)"

text \<open>
  Claim C1. When the two lexical scores exist (no query word made \<open>RegExp\<close> throw),
  \<open>calculateEnhancedRelevance\<close> is the weighted sum 0.4, 0.3, 0.2, 0.1 of the four
  signals, capped at 1.
\<close>

theorem enhanced_relevance_is_weighted_sum:
  assumes "calculateKeywordRelevance query (chunk_text c) = Inr lexical"
    and "calculateKeywordRelevance query (chunk_context c) = Inr context_lexical"
  shows "calculateEnhancedRelevance query c queryEmbedding =
           Inr (composite_score (semantic_signal queryEmbedding (embedding c)) lexical
                  (topic_overlap_ratio (extractTopics query) (topics c)) context_lexical)"
proof -
  have zero: "js_add (Fin 0) x = x" for x by (cases x) simp_all
  have sem: "(case (queryEmbedding, embedding c) of
                (Some qe, Some ce) \<Rightarrow>
                  js_add (Fin 0) (js_mul (cosineSimilarity (Some qe) (Some ce)) (Fin 0.4))
              | _ \<Rightarrow> Fin 0)
             = js_mul (semantic_signal queryEmbedding (embedding c)) (Fin 0.4)"
    by (cases queryEmbedding; cases "embedding c") (simp_all add: semantic_signal_def zero)
  have top: "(if 0 < length (extractTopics query)
              then js_div (Fin (real (length (filter (\<lambda>t. t \<in> set (extractTopics query)) (topics c)))))
                     (Fin (real (length (extractTopics query))))
              else Fin 0.5)
             = topic_overlap_ratio (extractTopics query) (topics c)"
    by (simp add: topic_overlap_ratio_def)
  show ?thesis
    unfolding calculateEnhancedRelevance_def Let_def assms sem top
    by (simp add: composite_score_def)
qed

text \<open>
  Two units for the examples: the query \<open>tie_query\<close> has two words of twelve letters
  and no topic; both units hold the first word twice in their text and the second word
  once in their context, A after the gap and B before it.
\<close>

definition tie_query :: string where
  "tie_query = ''aaaaaaaaaaaa bbbbbbbbbbbb''"

definition unit_A :: EnhancedChunk where
  "unit_A = \<lparr>chunk_text = ''aaaaaaaaaaaa aaaaaaaaaaaa'', episode = ''ep'', index = 0,
             embedding = None, episodeTitle = ''Ep'', speaker = Unknown, guestName = None,
             timestamp = None, topics = [], chunk_context = '' [...] bbbbbbbbbbbb''\<rparr>"

definition unit_B :: EnhancedChunk where
  "unit_B = \<lparr>chunk_text = ''aaaaaaaaaaaa aaaaaaaaaaaa'', episode = ''ep'', index = 1,
             embedding = None, episodeTitle = ''Ep'', speaker = Unknown, guestName = None,
             timestamp = None, topics = [], chunk_context = ''bbbbbbbbbbbb [...] ''\<rparr>"

lemma tie_query_topics: "extractTopics tie_query = []"
  by (simp add: tie_query_def topic_simps)

lemma tie_text_score:
  "calculateKeywordRelevance tie_query ''aaaaaaaaaaaa aaaaaaaaaaaa'' = Inr (Fin 0.6)"
  by (simp add: tie_query_def calculateKeywordRelevance_def tokenize_simps regexp_simps)

lemma tie_context_score_A:
  "calculateKeywordRelevance tie_query '' [...] bbbbbbbbbbbb'' = Inr (Fin 0.3)"
  by (simp add: tie_query_def calculateKeywordRelevance_def tokenize_simps regexp_simps)

theorem enhanced_relevance_witness:
  "calculateKeywordRelevance tie_query (chunk_text unit_A) = Inr (Fin 0.6)
   \<and> calculateKeywordRelevance tie_query (chunk_context unit_A) = Inr (Fin 0.3)
   \<and> calculateEnhancedRelevance tie_query unit_A None = Inr (Fin 0.31)"
  using enhanced_relevance_is_weighted_sum [of tie_query unit_A "Fin 0.6" "Fin 0.3" None]
    tie_text_score tie_context_score_A tie_query_topics
  by (simp add: unit_A_def composite_score_def semantic_signal_def topic_overlap_ratio_def)

subsection \<open>Sorting and mapping\<close>

lemma map_exn_Inr:
  "map_exn f xs = Inr ys \<Longrightarrow> list_all2 (\<lambda>x y. f x = Inr y) xs ys"
proof (induction xs arbitrary: ys)
  case Nil
  then show ?case by simp
next
  case (Cons x xs)
  then show ?case by (auto split: sum.splits)
qed

lemma set_insert_by: "set (insert_by cmp x ys) = insert x (set ys)"
  by (induction ys) auto

lemma set_sort_by: "set (sort_by cmp xs) = set xs"
  by (induction xs) (simp_all add: set_insert_by)

lemma length_insert_by: "length (insert_by cmp x ys) = Suc (length ys)"
  by (induction ys) auto

lemma length_sort_by: "length (sort_by cmp xs) = length xs"
  by (induction xs) (simp_all add: length_insert_by)









subsection \<open>Worked retrievals\<close>


lemma key_A: "candidate_key unit_A = ''ep-0''"
  by (simp add: candidate_key_def unit_A_def show_nat.simps digit_char_def char_simps)

lemma key_B: "candidate_key unit_B = ''ep-1''"
  by (simp add: candidate_key_def unit_B_def show_nat.simps digit_char_def char_simps)

text \<open>
  A unit in both stages: the provider answers every request with the vector (1, 0), the
  unit has the same vector, shares both topics of the query and repeats its words.
\<close>

definition funding_query :: string where
  "funding_query = ''startup funding''"

definition unit_H :: EnhancedChunk where
  "unit_H = \<lparr>chunk_text = ''startup funding for a startup'', episode = ''ep'', index = 2,
             embedding = Some [1, 0], episodeTitle = ''Ep'', speaker = Unknown, guestName = None,
             timestamp = None, topics = [''startup'', ''investment''],
             chunk_context = '' [...] ''\<rparr>"

definition unit_vector_api :: "string \<Rightarrow> api_outcome" where
  "unit_vector_api t = EmbeddingData [1, 0]"

lemma funding_query_topics: "extractTopics funding_query = [''startup'', ''investment'']"
  by (simp add: funding_query_def topic_simps)

lemma funding_embedding: "getEmbedding (Some ''sk'') unit_vector_api funding_query = Some [1, 0]"
  by (simp add: getEmbedding_def funding_query_def unit_vector_api_def trim_def is_space_def char_simps)

lemma funding_text_score:
  "calculateKeywordRelevance funding_query ''startup funding for a startup'' = Inr (Fin 1)"
  by (simp add: funding_query_def calculateKeywordRelevance_def tokenize_simps regexp_simps)

lemma funding_context_score:
  "calculateKeywordRelevance funding_query '' [...] '' = Inr (Fin 0)"
  by (simp add: funding_query_def calculateKeywordRelevance_def tokenize_simps regexp_simps)

lemma funding_stage3_score:
  "calculateKeywordRelevance funding_query (chunk_text unit_H @ CHR '' '' # chunk_context unit_H)
     = Inr (Fin 1)"
  by (simp add: unit_H_def funding_query_def calculateKeywordRelevance_def tokenize_simps regexp_simps)

lemma unit_cosine: "cosineSimilarity (Some [1, 0]) (Some [1, 0]) = Fin 1"
  by (simp add: cosineSimilarity_def double_simps)

lemma funding_relevance:
  "calculateEnhancedRelevance funding_query unit_H (Some [1, 0]) = Inr (Fin 0.9)"
  using funding_text_score funding_context_score funding_query_topics unit_cosine
  by (simp add: calculateEnhancedRelevance_def unit_H_def)

definition result_H :: RetrievalResult where
  "result_H = \<lparr>chunk = unit_H, relevanceScore = Fin 0.9, confidenceLevel = High,
     matchReason = ''Topic match: startup, investment; Keywords: startup, funding; High semantic similarity''\<rparr>"

lemma funding_explain:
  "explainMatch funding_query unit_H (Fin 0.9) =
     ''Topic match: startup, investment; Keywords: startup, funding; High semantic similarity''"
  using funding_query_topics
  apply (simp add: explainMatch_def findKeywordMatches_def unit_H_def)
  apply (simp add: funding_query_def tokenize_simps)
  done

lemma funding_candidates:
  "all_candidates (Some [1, 0]) [unit_H] funding_query = Inr [unit_H]"
  using funding_query_topics unit_cosine funding_stage3_score
  by (simp add: all_candidates_def topic_filter_def semantic_candidates_def
      enhancedKeywordSearch_def fuse_candidates_def)
     (auto simp: unit_H_def)

lemma funding_retrieval:
  "performMultiStageRetrieval (Some ''sk'') unit_vector_api [unit_H] funding_query = Inr [result_H]"
  using funding_query_topics funding_explain
  by (simp add: performMultiStageRetrieval_def funding_embedding funding_candidates
      retained_results_def score_candidate_def funding_relevance
      determineConfidenceLevel_def result_H_def)
     (auto simp: unit_H_def)

subsection \<open>Floor and confidence\<close>

text \<open>
  The confidence in the words of the specification: \<open>high\<close> above 0.7 with a shared
  topic, \<open>medium\<close> above 0.5 otherwise, else \<open>low\<close>.
\<close>

definition shares_topic :: "string \<Rightarrow> EnhancedChunk \<Rightarrow> bool" where
  "shares_topic query c = (set (topics c) \<inter> set (extractTopics query) \<noteq> {})"

definition confidence_rule :: "jsnum \<Rightarrow> bool \<Rightarrow> confidence" where
  "confidence_rule score shared =
     (if js_gt score (Fin 0.7) \<and> shared then High
      else if js_gt score (Fin 0.5) then Medium else Low)"

lemma determineConfidenceLevel_rule:
  "determineConfidenceLevel score c query = confidence_rule score (shares_topic query c)"
proof -
  have "(0 < length (topics c) \<and> (\<exists>topic \<in> set (extractTopics query). topic \<in> set (topics c)))
        = shares_topic query c"
    by (auto simp: shares_topic_def)
  then show ?thesis
    by (auto simp: determineConfidenceLevel_def confidence_rule_def)
qed

lemma score_candidate_fields:
  assumes "score_candidate query qe c = Inr r"
  shows "chunk r = c"
    and "calculateEnhancedRelevance query c qe = Inr (relevanceScore r)"
    and "confidenceLevel r = determineConfidenceLevel (relevanceScore r) c query"
  using assms by (auto simp: score_candidate_def split: sum.splits)

lemma retained_results_members:
  assumes "retained_results query qe cands = Inr results" and "r \<in> set results"
  shows "chunk r \<in> set cands \<and> score_candidate query qe (chunk r) = Inr r
         \<and> js_gt (relevanceScore r) (Fin 0.3)"
proof -
  from assms(1) obtain scored where m: "map_exn (score_candidate query qe) cands = Inr scored"
    and res: "results = filter (\<lambda>r. js_gt (relevanceScore r) (Fin 0.3)) scored"
    by (auto simp: retained_results_def split: sum.splits)
  from map_exn_Inr [OF m] have all: "list_all2 (\<lambda>x y. score_candidate query qe x = Inr y) cands scored" .
  from assms(2) res have rs: "r \<in> set scored" and gt: "js_gt (relevanceScore r) (Fin 0.3)" by auto
  from rs obtain i where i: "i < length scored" "scored ! i = r" by (auto simp: in_set_conv_nth)
  with all have sc: "score_candidate query qe (cands ! i) = Inr r" and il: "i < length cands"
    by (auto simp: list_all2_conv_all_nth)
  from score_candidate_fields(1) [OF sc] have "chunk r = cands ! i" .
  with sc il gt show ?thesis by auto
qed

text \<open>
  Claim C2. Every result of \<open>performMultiStageRetrieval\<close> carries the composite score of
  its unit, that score is above 0.3, and its confidence follows the rule; hence a unit
  whose composite score is not above 0.3 (NaN included) is the unit of no result.
\<close>

theorem results_pass_floor_and_confidence_rule:
  assumes "performMultiStageRetrieval key api corpus query = Inr results"
  shows "(\<forall>r \<in> set results.
            calculateEnhancedRelevance query (chunk r) (getEmbedding key api query)
              = Inr (relevanceScore r)
            \<and> js_gt (relevanceScore r) (Fin 0.3)
            \<and> confidenceLevel r = confidence_rule (relevanceScore r) (shares_topic query (chunk r)))
       \<and> (\<forall>c score. calculateEnhancedRelevance query c (getEmbedding key api query) = Inr score
             \<and> \<not> js_gt score (Fin 0.3) \<longrightarrow> c \<notin> chunk ` set results)"
proof -
  let ?qe = "getEmbedding key api query"
  from assms obtain cands retained where
    ret: "retained_results query ?qe cands = Inr retained"
    and res: "results = take 5 (sort_by (\<lambda>a b. js_sub (relevanceScore b) (relevanceScore a)) retained)"
    by (auto simp: performMultiStageRetrieval_def Let_def split: sum.splits)
  have sub: "set results \<subseteq> set retained"
    using res set_take_subset [of 5 "sort_by (\<lambda>a b. js_sub (relevanceScore b) (relevanceScore a)) retained"]
    by (simp add: set_sort_by)
  have each: "calculateEnhancedRelevance query (chunk r) ?qe = Inr (relevanceScore r)
            \<and> js_gt (relevanceScore r) (Fin 0.3)
            \<and> confidenceLevel r = confidence_rule (relevanceScore r) (shares_topic query (chunk r))"
    if "r \<in> set results" for r
  proof -
    from that sub have "r \<in> set retained" by auto
    from retained_results_members [OF ret this]
    have sc: "score_candidate query ?qe (chunk r) = Inr r" and gt: "js_gt (relevanceScore r) (Fin 0.3)"
      by auto
    from score_candidate_fields(2,3) [OF sc] gt show ?thesis
      by (simp add: determineConfidenceLevel_rule)
  qed
  have "c \<notin> chunk ` set results"
    if "calculateEnhancedRelevance query c ?qe = Inr score" "\<not> js_gt score (Fin 0.3)" for c score
  proof
    assume "c \<in> chunk ` set results"
    then obtain r where "r \<in> set results" "chunk r = c" by auto
    with each [of r] that show False by auto
  qed
  with each show ?thesis by blast
qed

theorem results_floor_confidence_witness:
  "performMultiStageRetrieval (Some ''sk'') unit_vector_api [unit_H] funding_query = Inr [result_H]
   \<and> calculateEnhancedRelevance funding_query unit_H (Some [1, 0]) = Inr (Fin 0.9)
   \<and> confidenceLevel result_H = High \<and> shares_topic funding_query unit_H"
  using results_pass_floor_and_confidence_rule [OF funding_retrieval] funding_retrieval funding_embedding funding_query_topics
  by (simp add: result_H_def shares_topic_def unit_H_def confidence_rule_def)

subsection \<open>Fusion\<close>

lemma unique_candidates_inv:
  assumes "distinct (map fst m)" and "\<forall>(k, c) \<in> set m. k = candidate_key c"
  shows "distinct (map fst (unique_candidates cs m))
       \<and> (\<forall>(k, c) \<in> set (unique_candidates cs m). k = candidate_key c)
       \<and> fst ` set (unique_candidates cs m) = fst ` set m \<union> candidate_key ` set cs
       \<and> (\<forall>c \<in> snd ` set (unique_candidates cs m).
             c \<in> snd ` set m
             \<or> (candidate_key c \<notin> fst ` set m
                 \<and> find (\<lambda>d. candidate_key d = candidate_key c) cs = Some c))"
  using assms
proof (induction cs arbitrary: m)
  case Nil
  then show ?case by auto
next
  case (Cons x xs)
  show ?case
  proof (cases "map_of m (candidate_key x) = None")
    case True
    let ?m = "m @ [(candidate_key x, x)]"
    from True have notin: "candidate_key x \<notin> fst ` set m" by (simp add: map_of_eq_None_iff)
    with Cons.prems have d: "distinct (map fst ?m)" and k: "\<forall>(k, c) \<in> set ?m. k = candidate_key c"
      by auto
    from Cons.IH [OF d k] have IH:
      "distinct (map fst (unique_candidates xs ?m))"
      "\<forall>(k, c) \<in> set (unique_candidates xs ?m). k = candidate_key c"
      "fst ` set (unique_candidates xs ?m) = fst ` set ?m \<union> candidate_key ` set xs"
      "\<forall>c \<in> snd ` set (unique_candidates xs ?m).
             c \<in> snd ` set ?m
             \<or> (candidate_key c \<notin> fst ` set ?m
                 \<and> find (\<lambda>d. candidate_key d = candidate_key c) xs = Some c)"
      by blast+
    have eq: "unique_candidates (x # xs) m = unique_candidates xs ?m"
      using True by (simp add: Let_def)
    have last: "\<forall>c \<in> snd ` set (unique_candidates xs ?m).
             c \<in> snd ` set m
             \<or> (candidate_key c \<notin> fst ` set m
                 \<and> find (\<lambda>d. candidate_key d = candidate_key c) (x # xs) = Some c)"
    proof
      fix c assume "c \<in> snd ` set (unique_candidates xs ?m)"
      with IH(4) have "c \<in> snd ` set ?m
             \<or> (candidate_key c \<notin> fst ` set ?m
                 \<and> find (\<lambda>d. candidate_key d = candidate_key c) xs = Some c)" by blast
      then show "c \<in> snd ` set m
             \<or> (candidate_key c \<notin> fst ` set m
                 \<and> find (\<lambda>d. candidate_key d = candidate_key c) (x # xs) = Some c)"
        using notin by (auto simp: image_Un)
    qed
    from IH(1,2,3) last show ?thesis unfolding eq by (auto simp: image_Un)
  next
    case False
    then have isin: "candidate_key x \<in> fst ` set m" by (simp add: map_of_eq_None_iff)
    have eq: "unique_candidates (x # xs) m = unique_candidates xs m"
      using False by (auto simp: Let_def)
    from Cons.IH [OF Cons.prems] have IH:
      "distinct (map fst (unique_candidates xs m))"
      "\<forall>(k, c) \<in> set (unique_candidates xs m). k = candidate_key c"
      "fst ` set (unique_candidates xs m) = fst ` set m \<union> candidate_key ` set xs"
      "\<forall>c \<in> snd ` set (unique_candidates xs m).
             c \<in> snd ` set m
             \<or> (candidate_key c \<notin> fst ` set m
                 \<and> find (\<lambda>d. candidate_key d = candidate_key c) xs = Some c)"
      by blast+
    have last: "\<forall>c \<in> snd ` set (unique_candidates xs m).
             c \<in> snd ` set m
             \<or> (candidate_key c \<notin> fst ` set m
                 \<and> find (\<lambda>d. candidate_key d = candidate_key c) (x # xs) = Some c)"
    proof
      fix c assume "c \<in> snd ` set (unique_candidates xs m)"
      with IH(4) have "c \<in> snd ` set m
             \<or> (candidate_key c \<notin> fst ` set m
                 \<and> find (\<lambda>d. candidate_key d = candidate_key c) xs = Some c)" by blast
      then show "c \<in> snd ` set m
             \<or> (candidate_key c \<notin> fst ` set m
                 \<and> find (\<lambda>d. candidate_key d = candidate_key c) (x # xs) = Some c)"
        using isin by (cases "candidate_key x = candidate_key c") auto
    qed
    from IH(1,2,3) last isin show ?thesis unfolding eq by auto
  qed
qed

lemma fuse_candidates_facts:
  "distinct (map candidate_key (fuse_candidates sem kw))"
  "candidate_key ` set (fuse_candidates sem kw) = candidate_key ` (set sem \<union> set kw)"
  "c \<in> set (fuse_candidates sem kw) \<Longrightarrow>
     find (\<lambda>d. candidate_key d = candidate_key c) (sem @ kw) = Some c"
proof -
  let ?u = "unique_candidates (sem @ kw) []"
  have inv: "distinct (map fst ?u)" "\<forall>(k, c) \<in> set ?u. k = candidate_key c"
    "fst ` set ?u = candidate_key ` set (sem @ kw)"
    "\<forall>c \<in> snd ` set ?u. find (\<lambda>d. candidate_key d = candidate_key c) (sem @ kw) = Some c"
    using unique_candidates_inv [of "[]" "sem @ kw"] by auto
  from inv(2) have keys: "map (candidate_key \<circ> snd) ?u = map fst ?u"
    by auto
  show "distinct (map candidate_key (fuse_candidates sem kw))"
    by (simp only: fuse_candidates_def map_map keys inv(1))
  have "candidate_key ` set (map snd ?u) = set (map (candidate_key \<circ> snd) ?u)" by auto
  also have "\<dots> = fst ` set ?u" unfolding keys by simp
  finally show "candidate_key ` set (fuse_candidates sem kw) = candidate_key ` (set sem \<union> set kw)"
    using inv(3) by (simp add: fuse_candidates_def)
  show "find (\<lambda>d. candidate_key d = candidate_key c) (sem @ kw) = Some c"
    if "c \<in> set (fuse_candidates sem kw)"
    using that inv(4) by (auto simp: fuse_candidates_def)
qed

lemma find_append_first:
  "\<exists>d \<in> set xs. P d \<Longrightarrow> find P (xs @ ys) = find P xs"
  by (induction xs) auto

lemma distinct_map_filter_one:
  "distinct (map f xs) \<Longrightarrow> x \<in> set xs \<Longrightarrow> length (filter (\<lambda>y. f y = f x) xs) = 1"
proof (induction xs)
  case Nil
  then show ?case by simp
next
  case (Cons a xs)
  show ?case
  proof (cases "f a = f x")
    case True
    from Cons.prems have "f a \<notin> f ` set xs" by simp
    with True have "\<forall>y \<in> set xs. f y \<noteq> f x" by (metis image_eqI)
    then have "filter (\<lambda>y. f y = f x) xs = []" by (simp add: filter_empty_conv)
    with True show ?thesis by simp
  next
    case False
    with Cons show ?thesis by auto
  qed
qed

text \<open>The key is the episode, a hyphen and the decimal index; the digits hold no hyphen.\<close>

lemma digit_char_code: "d < 10 \<Longrightarrow> (of_char (digit_char d) :: nat) = 48 + d"
  by (simp add: digit_char_def)

lemma digit_char_inj: "a < 10 \<Longrightarrow> b < 10 \<Longrightarrow> digit_char a = digit_char b \<Longrightarrow> a = b"
  by (metis add_left_cancel digit_char_code)

lemma digit_char_not_hyphen: "d < 10 \<Longrightarrow> digit_char d \<noteq> CHR ''-''"
proof
  assume "d < 10" and "digit_char d = CHR ''-''"
  then have "(of_char (CHR ''-'') :: nat) = 48 + d" using digit_char_code [of d] by simp
  then show False by simp
qed

lemma show_nat_nonempty: "show_nat n \<noteq> []"
  by (subst show_nat.simps) simp

lemma show_nat_no_hyphen: "CHR ''-'' \<notin> set (show_nat n)"
proof (induction n rule: show_nat.induct)
  case (1 n)
  show ?case
  proof (cases "n < 10")
    case True
    then show ?thesis using digit_char_not_hyphen [of n] by (subst show_nat.simps) auto
  next
    case False
    then have "n mod 10 < 10" by simp
    with False "1.IH" digit_char_not_hyphen [of "n mod 10"] show ?thesis
      by (subst show_nat.simps) auto
  qed
qed

lemma show_nat_inj: "show_nat n = show_nat m \<Longrightarrow> n = m"
proof (induction n arbitrary: m rule: show_nat.induct)
  case (1 n)
  show ?case
  proof (cases "n < 10")
    case True
    then have n: "show_nat n = [digit_char n]" by (subst show_nat.simps) simp
    have "m < 10"
    proof (rule ccontr)
      assume "\<not> m < 10"
      then have "show_nat m = show_nat (m div 10) @ [digit_char (m mod 10)]"
        by (subst show_nat.simps) simp
      with "1.prems" n show_nat_nonempty [of "m div 10"] show False by (cases "show_nat (m div 10)") auto
    qed
    then have "show_nat m = [digit_char m]" by (subst show_nat.simps) simp
    with "1.prems" n have "digit_char n = digit_char m" by simp
    with True \<open>m < 10\<close> show ?thesis by (rule digit_char_inj)
  next
    case False
    then have n: "show_nat n = show_nat (n div 10) @ [digit_char (n mod 10)]"
      by (subst show_nat.simps) simp
    have "\<not> m < 10"
    proof
      assume "m < 10"
      then have "show_nat m = [digit_char m]" by (subst show_nat.simps) simp
      with "1.prems" n show_nat_nonempty [of "n div 10"] show False by (cases "show_nat (n div 10)") auto
    qed
    then have m: "show_nat m = show_nat (m div 10) @ [digit_char (m mod 10)]"
      by (subst show_nat.simps) simp
    from "1.prems" n m have eq: "show_nat (n div 10) = show_nat (m div 10)"
      and d: "digit_char (n mod 10) = digit_char (m mod 10)" by auto
    from "1.IH" [OF False eq] have "n div 10 = m div 10" .
    moreover have "n mod 10 = m mod 10" by (rule digit_char_inj) (simp_all add: d)
    ultimately show ?thesis by (metis div_mult_mod_eq)
  qed
qed

lemma hyphen_split:
  "CHR ''-'' \<notin> set a \<Longrightarrow> CHR ''-'' \<notin> set b \<Longrightarrow> x @ CHR ''-'' # a = y @ CHR ''-'' # b
   \<Longrightarrow> x = y \<and> a = b"
proof (induction x arbitrary: y)
  case Nil
  then show ?case by (cases y) auto
next
  case (Cons c x)
  then show ?case by (cases y) auto
qed

lemma candidate_key_inj:
  "candidate_key c = candidate_key d \<longleftrightarrow> episode c = episode d \<and> index c = index d"
proof
  assume "candidate_key c = candidate_key d"
  then have "episode c @ CHR ''-'' # show_nat (index c) = episode d @ CHR ''-'' # show_nat (index d)"
    by (simp add: candidate_key_def)
  from hyphen_split [OF show_nat_no_hyphen show_nat_no_hyphen this]
  show "episode c = episode d \<and> index c = index d" by (auto dest: show_nat_inj)
qed (simp add: candidate_key_def)

text \<open>
  Claim C4. The key of a unit stands for its episode and its index. Every unit id of
  the semantic or the lexical list occurs exactly once in the fused list; the unit kept for an id is the first one with that id in the semantic
  list followed by the lexical list, so it is the semantic one whenever the semantic
  list has the id.
\<close>

theorem fusion_keeps_first_occurrence:
  "(\<forall>c \<in> set sem \<union> set kw.
      length (filter (\<lambda>d. candidate_key d = candidate_key c) (fuse_candidates sem kw)) = 1)
   \<and> (\<forall>c \<in> set (fuse_candidates sem kw).
        find (\<lambda>d. candidate_key d = candidate_key c) (sem @ kw) = Some c)
   \<and> (\<forall>c \<in> set (fuse_candidates sem kw).
        (\<exists>d \<in> set sem. candidate_key d = candidate_key c) \<longrightarrow>
        c \<in> set sem \<and> find (\<lambda>d. candidate_key d = candidate_key c) sem = Some c)
   \<and> (candidate_key u = candidate_key v \<longleftrightarrow> episode u = episode v \<and> index u = index v)"
proof -
  have first: "(\<forall>c \<in> set sem \<union> set kw.
      length (filter (\<lambda>d. candidate_key d = candidate_key c) (fuse_candidates sem kw)) = 1)
   \<and> (\<forall>c \<in> set (fuse_candidates sem kw).
        find (\<lambda>d. candidate_key d = candidate_key c) (sem @ kw) = Some c)
   \<and> (\<forall>c \<in> set (fuse_candidates sem kw).
        (\<exists>d \<in> set sem. candidate_key d = candidate_key c) \<longrightarrow>
        c \<in> set sem \<and> find (\<lambda>d. candidate_key d = candidate_key c) sem = Some c)"
  proof (intro conjI ballI impI)
    fix c assume c: "c \<in> set sem \<union> set kw"
    then have "candidate_key c \<in> candidate_key ` set (fuse_candidates sem kw)"
      using fuse_candidates_facts(2) [of sem kw] by blast
    then obtain e where e: "e \<in> set (fuse_candidates sem kw)" "candidate_key e = candidate_key c"
      by auto
    from distinct_map_filter_one [OF fuse_candidates_facts(1) e(1)] e(2)
    show "length (filter (\<lambda>d. candidate_key d = candidate_key c) (fuse_candidates sem kw)) = 1"
      by simp
  next
    fix c assume "c \<in> set (fuse_candidates sem kw)"
    then show "find (\<lambda>d. candidate_key d = candidate_key c) (sem @ kw) = Some c"
      by (rule fuse_candidates_facts(3))
  next
    fix c assume c: "c \<in> set (fuse_candidates sem kw)"
      and ex: "\<exists>d \<in> set sem. candidate_key d = candidate_key c"
    from fuse_candidates_facts(3) [OF c] find_append_first [OF ex, of kw]
    have f: "find (\<lambda>d. candidate_key d = candidate_key c) sem = Some c" by simp
    then show "c \<in> set sem" by (auto simp: find_Some_iff)
    from f show "find (\<lambda>d. candidate_key d = candidate_key c) sem = Some c" .
  qed
  with candidate_key_inj [of u v] show ?thesis by blast
qed

theorem fusion_witness:
  "fuse_candidates [unit_B] [unit_A, unit_B] = [unit_B, unit_A]
   \<and> length (filter (\<lambda>d. candidate_key d = candidate_key unit_B)
               (fuse_candidates [unit_B] [unit_A, unit_B])) = 1
   \<and> find (\<lambda>d. candidate_key d = candidate_key unit_B) [unit_B] = Some unit_B"
  using fusion_keeps_first_occurrence [of "[unit_B]" "[unit_A, unit_B]"]
  by (simp add: fuse_candidates_def key_A key_B)

subsection \<open>Ranking\<close>




































text \<open>
  A corpus as the smart chunker builds it: a transcript of two paragraphs, each of more
  than 100 characters, so that the context of a unit holds only the last 100 characters
  of the paragraph before it and the first 100 of the paragraph after it. Both units
  have the text score 0.6 and the context score 0.3; the second paragraph ends with the
  first word of the query and the end of the first paragraph starts with the second
  word, so the text and context of unit 1 together contain the whole query.
\<close>

definition filler :: string where
  "filler = '' x x x x x x x x x x x x x x x x x x x x x x x x x x x x x x x x x x x x x x x x x x x x''"

definition section_0 :: string where
  "section_0 = ''aaaaaaaaaaaa x bbbbbbbbbbbb'' @ filler"

definition section_1 :: string where
  "section_1 = ''aaaaaaaaaaaa'' @ filler @ '' aaaaaaaaaaaa''"

definition transcript :: string where
  "transcript = section_0 @ [CHR 0x0A, CHR 0x0A] @ section_1"


































































subsection \<open>Bulk embedding pass\<close>

text \<open>The result of the call to \<open>getEmbedding\<close> in iteration \<open>j\<close> of the pass over \<open>cs\<close>.\<close>

definition outcome :: "string option \<Rightarrow> (nat \<Rightarrow> string \<Rightarrow> api_outcome) \<Rightarrow> Chunk list \<Rightarrow> nat \<Rightarrow> vector option" where
  "outcome key api cs j = getEmbedding key (api j) (chunk_text (cs ! j))"

lemma embed_loop_shape:
  "embed_loop key api i cs ec cf = (cs', n, e) \<Longrightarrow>
   length cs' = length cs \<and> i \<le> e \<and> e \<le> i + length cs"
proof (induction cs arbitrary: i ec cf cs' n e)
  case Nil
  then show ?case by simp
next
  case (Cons c cs)
  show ?case
  proof (cases "getEmbedding key (api i) (chunk_text c)")
    case (Some emb)
    obtain cs1 n1 e1 where r: "embed_loop key api (Suc i) cs (Suc ec) 0 = (cs1, n1, e1)"
      by (metis prod_cases3)
    from Cons.IH [OF r] Cons.prems Some r show ?thesis by auto
  next
    case None
    show ?thesis
    proof (cases "5 \<le> Suc cf")
      case True
      with None Cons.prems show ?thesis by auto
    next
      case False
      obtain cs1 n1 e1 where r: "embed_loop key api (Suc i) cs ec (Suc cf) = (cs1, n1, e1)"
        by (metis prod_cases3)
      from Cons.IH [OF r] Cons.prems None False r show ?thesis by auto
    qed
  qed
qed

lemma embed_loop_units:
  "embed_loop key api i cs ec cf = (cs', n, e) \<Longrightarrow> j < length cs \<Longrightarrow>
   chunk_text (cs' ! j) = chunk_text (cs ! j) \<and> episode (cs' ! j) = episode (cs ! j)
   \<and> index (cs' ! j) = index (cs ! j)
   \<and> embedding (cs' ! j) =
       (if i + j < e
        then (case getEmbedding key (api (i + j)) (chunk_text (cs ! j)) of
                Some v \<Rightarrow> Some v | None \<Rightarrow> embedding (cs ! j))
        else embedding (cs ! j))"
proof (induction cs arbitrary: i ec cf cs' n e j)
  case Nil
  then show ?case by simp
next
  case (Cons c cs)
  show ?case
  proof (cases "getEmbedding key (api i) (chunk_text c)")
    case (Some emb)
    obtain cs1 n1 e1 where r: "embed_loop key api (Suc i) cs (Suc ec) 0 = (cs1, n1, e1)"
      by (metis prod_cases3)
    from embed_loop_shape [OF r] have le: "Suc i \<le> e1" by simp
    from Cons.prems Some r have eq: "cs' = c\<lparr>embedding := Some emb\<rparr> # cs1" "e = e1" by auto
    show ?thesis
    proof (cases j)
      case 0
      with eq le Some show ?thesis by simp
    next
      case (Suc j')
      with Cons.prems have "j' < length cs" by simp
      from Cons.IH [OF r this] Suc eq show ?thesis by (auto split: option.splits)
    qed
  next
    case None
    show ?thesis
    proof (cases "5 \<le> Suc cf")
      case True
      with None Cons.prems have eq: "cs' = c # cs" "e = Suc i" by auto
      with None show ?thesis by (cases j) simp_all
    next
      case False
      obtain cs1 n1 e1 where r: "embed_loop key api (Suc i) cs ec (Suc cf) = (cs1, n1, e1)"
        by (metis prod_cases3)
      from Cons.prems None False r have eq: "cs' = c # cs1" "e = e1" by auto
      show ?thesis
      proof (cases j)
        case 0
        with eq None show ?thesis by simp
      next
        case (Suc j')
        with Cons.prems have "j' < length cs" by simp
        from Cons.IH [OF r this] Suc eq show ?thesis by (auto split: option.splits)
      qed
    qed
  qed
qed

text \<open>A run of failures that fills the counter stops the pass at its end.\<close>

lemma embed_loop_failing_run:
  "cf < 5 \<Longrightarrow> 5 - cf \<le> length cs \<Longrightarrow>
   \<forall>j < 5 - cf. getEmbedding key (api (i + j)) (chunk_text (cs ! j)) = None \<Longrightarrow>
   snd (snd (embed_loop key api i cs ec cf)) = i + (5 - cf)"
proof (induction cs arbitrary: i cf)
  case Nil
  then show ?case by simp
next
  case (Cons c cs)
  from Cons.prems(1,3) have none: "getEmbedding key (api i) (chunk_text c) = None"
    by (auto dest: spec [of _ 0])
  show ?case
  proof (cases "5 \<le> Suc cf")
    case True
    with Cons.prems(1) have "cf = 4" by simp
    with none show ?thesis by simp
  next
    case False
    then have lt: "Suc cf < 5" by simp
    from Cons.prems(2) False have len: "5 - Suc cf \<le> length cs" by simp
    have run: "\<forall>j < 5 - Suc cf. getEmbedding key (api (Suc i + j)) (chunk_text (cs ! j)) = None"
    proof (intro allI impI)
      fix j assume "j < 5 - Suc cf"
      then have "Suc j < 5 - cf" by simp
      with Cons.prems(3) have "getEmbedding key (api (i + Suc j)) (chunk_text ((c # cs) ! Suc j)) = None"
        by blast
      then show "getEmbedding key (api (Suc i + j)) (chunk_text (cs ! j)) = None" by simp
    qed
    obtain cs1 n1 e1 where r: "embed_loop key api (Suc i) cs ec (Suc cf) = (cs1, n1, e1)"
      by (metis prod_cases3)
    from Cons.IH [OF lt len run] r have "e1 = Suc i + (5 - Suc cf)" by simp
    with none False r lt show ?thesis by simp
  qed
qed

lemma embed_loop_stops_after_five:
  "cf < 5 \<Longrightarrow> k + 5 \<le> length cs \<Longrightarrow>
   \<forall>j < 5. getEmbedding key (api (i + k + j)) (chunk_text (cs ! (k + j))) = None \<Longrightarrow>
   snd (snd (embed_loop key api i cs ec cf)) \<le> i + k + 5"
proof (induction cs arbitrary: i cf k ec)
  case Nil
  then show ?case by simp
next
  case (Cons c cs)
  show ?case
  proof (cases k)
    case 0
    from Cons.prems(1) have len: "5 - cf \<le> length (c # cs)" using Cons.prems(2) by simp
    have "\<forall>j < 5 - cf. getEmbedding key (api (i + j)) (chunk_text ((c # cs) ! j)) = None"
      using Cons.prems(3) 0 by auto
    from embed_loop_failing_run [OF Cons.prems(1) len this] 0 show ?thesis by simp
  next
    case (Suc k')
    with Cons.prems(2) have len: "k' + 5 \<le> length cs" by simp
    have run: "\<forall>j < 5. getEmbedding key (api (Suc i + k' + j)) (chunk_text (cs ! (k' + j))) = None"
      using Cons.prems(3) Suc by simp
    show ?thesis
    proof (cases "getEmbedding key (api i) (chunk_text c)")
      case (Some emb)
      obtain cs1 n1 e1 where r: "embed_loop key api (Suc i) cs (Suc ec) 0 = (cs1, n1, e1)"
        by (metis prod_cases3)
      have "snd (snd (embed_loop key api (Suc i) cs (Suc ec) 0)) \<le> Suc i + k' + 5"
        by (rule Cons.IH [OF _ len run]) simp
      with r have "e1 \<le> Suc i + k' + 5" by simp
      with Some Suc r show ?thesis by simp
    next
      case None
      show ?thesis
      proof (cases "5 \<le> Suc cf")
        case True
        with None show ?thesis by simp
      next
        case False
        then have "Suc cf < 5" by simp
        obtain cs1 n1 e1 where r: "embed_loop key api (Suc i) cs ec (Suc cf) = (cs1, n1, e1)"
          by (metis prod_cases3)
        from Cons.IH [OF \<open>Suc cf < 5\<close> len run, of ec] r have "e1 \<le> Suc i + k' + 5" by simp
        with None False Suc r show ?thesis by simp
      qed
    qed
  qed
qed

text \<open>The pass stops early only at the end of a run of failures that fills the counter.\<close>

lemma embed_loop_early_stop:
  "cf < 5 \<Longrightarrow> embed_loop key api i cs ec cf = (cs', n, e) \<Longrightarrow> e < i + length cs \<Longrightarrow>
   i + (5 - cf) \<le> e
   \<and> (\<forall>t. i \<le> t \<and> e \<le> t + 5 \<and> t < e \<longrightarrow>
          getEmbedding key (api t) (chunk_text (cs ! (t - i))) = None)"
proof (induction cs arbitrary: i cf ec cs' n e)
  case Nil
  then show ?case by simp
next
  case (Cons c cs)
  show ?case
  proof (cases "getEmbedding key (api i) (chunk_text c)")
    case (Some emb)
    obtain cs1 n1 e1 where r: "embed_loop key api (Suc i) cs (Suc ec) 0 = (cs1, n1, e1)"
      by (metis prod_cases3)
    from Cons.prems Some r have eq: "e = e1" by auto
    with Cons.prems have lt: "e1 < Suc i + length cs" by simp
    from Cons.IH [OF _ r lt] have IH: "Suc i + 5 \<le> e1"
      "\<forall>t. Suc i \<le> t \<and> e1 \<le> t + 5 \<and> t < e1 \<longrightarrow>
          getEmbedding key (api t) (chunk_text (cs ! (t - Suc i))) = None" by auto
    have "getEmbedding key (api t) (chunk_text ((c # cs) ! (t - i))) = None"
      if "i \<le> t" "e \<le> t + 5" "t < e" for t
    proof -
      from that IH(1) eq have "Suc i \<le> t" by simp
      with that eq IH(2) have "getEmbedding key (api t) (chunk_text (cs ! (t - Suc i))) = None" by simp
      moreover from \<open>Suc i \<le> t\<close> have "(c # cs) ! (t - i) = cs ! (t - Suc i)"
        by (simp add: Suc_diff_le)
      ultimately show ?thesis by simp
    qed
    with IH(1) eq Cons.prems(1) show ?thesis by auto
  next
    case None
    show ?thesis
    proof (cases "5 \<le> Suc cf")
      case True
      with None Cons.prems have eq: "e = Suc i" by auto
      from True Cons.prems(1) have "cf = 4" by simp
      moreover have "getEmbedding key (api t) (chunk_text ((c # cs) ! (t - i))) = None"
        if "i \<le> t" "t < e" for t
      proof -
        from that eq have "t = i" by simp
        with None show ?thesis by simp
      qed
      ultimately show ?thesis using eq by auto
    next
      case False
      then have c5: "Suc cf < 5" by simp
      obtain cs1 n1 e1 where r: "embed_loop key api (Suc i) cs ec (Suc cf) = (cs1, n1, e1)"
        by (metis prod_cases3)
      from Cons.prems None False r have eq: "e = e1" by auto
      with Cons.prems have lt: "e1 < Suc i + length cs" by simp
      from Cons.IH [OF c5 r lt] have IH: "Suc i + (5 - Suc cf) \<le> e1"
        "\<forall>t. Suc i \<le> t \<and> e1 \<le> t + 5 \<and> t < e1 \<longrightarrow>
            getEmbedding key (api t) (chunk_text (cs ! (t - Suc i))) = None" by auto
      have "getEmbedding key (api t) (chunk_text ((c # cs) ! (t - i))) = None"
        if "i \<le> t" "e \<le> t + 5" "t < e" for t
      proof (cases "t = i")
        case True
        with None show ?thesis by simp
      next
        case False
        with that have "Suc i \<le> t" by simp
        with that eq IH(2) have "getEmbedding key (api t) (chunk_text (cs ! (t - Suc i))) = None" by simp
        moreover from \<open>Suc i \<le> t\<close> have "(c # cs) ! (t - i) = cs ! (t - Suc i)"
          by (simp add: Suc_diff_le)
        ultimately show ?thesis by simp
      qed
      with IH(1) eq c5 show ?thesis by auto
    qed
  qed
qed

text \<open>
  Claim C7. For the pass as \<open>initialize\<close> starts it (iteration 0, both counters 0): it
  enters no iteration after five consecutive failures; it stops before the end of the
  list only when the last five calls all failed, so a success in between resets the
  count; every unit keeps its text, and its embedding is the vector of its successful
  call, also when the pass stops early. \<open>initialize\<close> then stores the units of the pass
  and sets \<open>isReady\<close>, whether the pass stopped early or not.
\<close>

theorem bulk_pass_stops_after_five_failures:
  assumes "embed_loop key api 0 cs 0 0 = (cs', n, entered)"
  shows "length cs' = length cs \<and> entered \<le> length cs
    \<and> (\<forall>k. k + 5 \<le> length cs \<and> (\<forall>j < 5. outcome key api cs (k + j) = None)
           \<longrightarrow> entered \<le> k + 5)
    \<and> (entered < length cs \<longrightarrow>
          5 \<le> entered \<and> (\<forall>j < 5. outcome key api cs (entered - 5 + j) = None))
    \<and> (\<forall>j < length cs.
          chunk_text (cs' ! j) = chunk_text (cs ! j)
          \<and> embedding (cs' ! j) =
              (if j < entered
               then (case outcome key api cs j of Some v \<Rightarrow> Some v | None \<Rightarrow> embedding (cs ! j))
               else embedding (cs ! j)))
    \<and> (\<not> isReady s \<and> \<not> truthy (initError s) \<and> readdir w = Some listing
         \<and> load_files (readFile w) (filter (\<lambda>f. endsWith f ''.txt'') listing) \<noteq> [] \<longrightarrow>
         isReady (initialize w s) \<and> initError (initialize w s) = initError s
         \<and> chunks (initialize w s) =
             fst (embed_loop (openai_key w) (embeddings_api w) 0
                    (take 50 (chunks s @ load_files (readFile w)
                                            (filter (\<lambda>f. endsWith f ''.txt'') listing))) 0 0)
             @ drop 50 (chunks s @ load_files (readFile w)
                                     (filter (\<lambda>f. endsWith f ''.txt'') listing)))"
proof (intro conjI allI impI)
  from embed_loop_shape [OF assms] show "length cs' = length cs" "entered \<le> length cs" by simp_all
next
  fix k assume "k + 5 \<le> length cs \<and> (\<forall>j < 5. outcome key api cs (k + j) = None)"
  then have len: "k + 5 \<le> length cs"
    and run: "\<forall>j < 5. getEmbedding key (api (0 + k + j)) (chunk_text (cs ! (k + j))) = None"
    by (simp_all add: outcome_def)
  from embed_loop_stops_after_five [OF _ len run, of 0 0] assms show "entered \<le> k + 5" by simp
next
  assume early: "entered < length cs"
  then have lt: "entered < 0 + length cs" by simp
  from embed_loop_early_stop [OF _ assms lt]
  have five: "5 \<le> entered"
    and run: "\<forall>t. 0 \<le> t \<and> entered \<le> t + 5 \<and> t < entered \<longrightarrow>
                 getEmbedding key (api t) (chunk_text (cs ! (t - 0))) = None"
    by simp_all
  from five show "5 \<le> entered" .
  fix j :: nat assume "j < 5"
  with five run show "outcome key api cs (entered - 5 + j) = None"
    by (simp add: outcome_def)
next
  fix j assume j: "j < length cs"
  from embed_loop_units [OF assms j]
  show "chunk_text (cs' ! j) = chunk_text (cs ! j)"
    and "embedding (cs' ! j) =
              (if j < entered
               then (case outcome key api cs j of Some v \<Rightarrow> Some v | None \<Rightarrow> embedding (cs ! j))
               else embedding (cs ! j))"
    by (simp_all add: outcome_def)
next
  assume a: "\<not> isReady s \<and> \<not> truthy (initError s) \<and> readdir w = Some listing
         \<and> load_files (readFile w) (filter (\<lambda>f. endsWith f ''.txt'') listing) \<noteq> []"
  let ?files = "filter (\<lambda>f. endsWith f ''.txt'') listing"
  from a have ne: "?files \<noteq> []" by (cases ?files) auto
  obtain ce ec en where r: "embed_loop (openai_key w) (embeddings_api w) 0
           (take 50 (chunks s @ load_files (readFile w) ?files)) 0 0 = (ce, ec, en)"
    by (metis prod_cases3)
  from a ne r have init: "initialize w s =
      s\<lparr>chunks := ce @ drop 50 (chunks s @ load_files (readFile w) ?files), isReady := True\<rparr>"
    by (simp add: initialize_def Let_def)
  from init show "isReady (initialize w s)" by simp
  from init show "initError (initialize w s) = initError s" by simp
  from init r show "chunks (initialize w s) =
             fst (embed_loop (openai_key w) (embeddings_api w) 0
                    (take 50 (chunks s @ load_files (readFile w) ?files)) 0 0)
             @ drop 50 (chunks s @ load_files (readFile w) ?files)" by simp
qed

definition plain_unit :: Chunk where
  "plain_unit = \<lparr>chunk_text = ''0123456789'', episode = ''ep'', index = 0, embedding = None\<rparr>"

definition flaky_api :: "nat \<Rightarrow> string \<Rightarrow> api_outcome" where
  "flaky_api i t = (if i = 0 then EmbeddingData [1] else StatusNotOk)"

lemma flaky_outcomes:
  "getEmbedding (Some ''sk'') (flaky_api i) ''0123456789'' = (if i = 0 then Some [1] else None)"
  by (simp add: getEmbedding_def flaky_api_def trim_def is_space_def char_simps)

lemma flaky_pass:
  "embed_loop (Some ''sk'') flaky_api 0 (replicate 7 plain_unit) 0 0 =
     (plain_unit\<lparr>embedding := Some [1]\<rparr> # replicate 6 plain_unit, 1, 6)"
  by (simp add: numeral_eq_Suc flaky_outcomes plain_unit_def)

theorem bulk_pass_witness:
  "embed_loop (Some ''sk'') flaky_api 0 (replicate 7 plain_unit) 0 0 =
     (plain_unit\<lparr>embedding := Some [1]\<rparr> # replicate 6 plain_unit, 1, 6)
   \<and> (6::nat) \<le> 1 + 5 \<and> (6::nat) < length (replicate 7 plain_unit)
   \<and> outcome (Some ''sk'') flaky_api (replicate 7 plain_unit) 0 = Some [1]
   \<and> outcome (Some ''sk'') flaky_api (replicate 7 plain_unit) 5 = None"
  using bulk_pass_stops_after_five_failures [OF flaky_pass] flaky_pass
  by (simp add: outcome_def flaky_outcomes plain_unit_def)

subsection \<open>Chunkers\<close>

lemma chunk_loop_texts:
  "c \<in> set (chunk_loop content ep i k) \<Longrightarrow> 50 < length (chunk_text c) \<and> length (chunk_text c) \<le> 500"
proof (induction content ep i k rule: chunk_loop.induct)
  case (1 content episodeName i chunkIndex)
  have tl: "length (trim (take 500 (drop i content))) \<le> 500"
  proof -
    have "length (trim xs) \<le> length xs" for xs
      unfolding trim_def
      by (metis length_rev length_dropWhile_le order_trans)
    from this [of "take 500 (drop i content)"] show ?thesis by simp
  qed
  from "1.prems" show ?case
    apply (subst (asm) chunk_loop.simps)
    apply (simp add: Let_def split: if_splits)
    using "1.IH" tl apply auto
    done
qed

lemma chunk_loop_indices:
  "map index (chunk_loop content ep i k) = [k ..< k + length (chunk_loop content ep i k)]"
proof (induction content ep i k rule: chunk_loop.induct)
  case (1 content episodeName i chunkIndex)
  show ?case
  proof (cases "i < length content")
    case False
    then show ?thesis by (subst (1 2) chunk_loop.simps) simp
  next
    case True
    let ?t = "trim (take 500 (drop i content))"
    show ?thesis
    proof (cases "50 < length ?t")
      case long: True
      from "1.IH"(1) [OF True refl long]
      have IH: "map index (chunk_loop content episodeName (i + 500) (Suc chunkIndex)) =
            [Suc chunkIndex ..< Suc chunkIndex + length (chunk_loop content episodeName (i + 500) (Suc chunkIndex))]" .
      have eq: "chunk_loop content episodeName i chunkIndex =
          \<lparr>chunk_text = ?t, episode = episodeName, index = chunkIndex, embedding = None\<rparr>
          # chunk_loop content episodeName (i + 500) (Suc chunkIndex)"
        using True long by (subst chunk_loop.simps) (simp add: Let_def)
      show ?thesis unfolding eq using IH by (simp add: upt_rec)
    next
      case short: False
      from "1.IH"(2) [OF True refl short]
      have IH: "map index (chunk_loop content episodeName (i + 500) chunkIndex) =
            [chunkIndex ..< chunkIndex + length (chunk_loop content episodeName (i + 500) chunkIndex)]" .
      have eq: "chunk_loop content episodeName i chunkIndex =
          chunk_loop content episodeName (i + 500) chunkIndex"
        using True short by (subst chunk_loop.simps) (simp add: Let_def)
      show ?thesis unfolding eq using IH .
    qed
  qed
qed

lemma index_createChunkWithMetadata [simp]:
  "index (createChunkWithMetadata t ep idx p n) = idx"
  by (simp add: createChunkWithMetadata_def Let_def split: option.splits prod.splits)

lemma chunk_text_createChunkWithMetadata:
  "chunk_text (createChunkWithMetadata t ep idx p n) =
     (case speaker_match t of None \<Rightarrow> t | Some (name, rest) \<Rightarrow> rest)"
  by (simp add: createChunkWithMetadata_def Let_def split: option.splits prod.splits)

lemma line_from_nonempty: "line_from k s = Some r \<Longrightarrow> r \<noteq> []"
  by (auto simp: line_from_def split: list.splits if_splits)

lemma rest_of_line_nonempty: "rest_of_line k s = Some r \<Longrightarrow> r \<noteq> []"
  by (induction k) (auto dest: line_from_nonempty split: option.splits)

lemma speaker_match_nonempty: "speaker_match t = Some (name, r) \<Longrightarrow> r \<noteq> []"
  by (auto simp: speaker_match_def Let_def dest: rest_of_line_nonempty
      split: list.splits if_splits option.splits)

lemma createChunkWithMetadata_nonempty:
  "t \<noteq> [] \<Longrightarrow> chunk_text (createChunkWithMetadata t ep idx p n) \<noteq> []"
  by (auto simp: chunk_text_createChunkWithMetadata dest: speaker_match_nonempty
      split: option.splits)

lemma upt_append_upt: "[a ..< a + n] @ [a + n ..< a + n + m] = [a ..< a + (n + m)]"
  using upt_add_eq_append [of a "a + n" m] by (simp add: add.assoc)

lemma upt_Cons_upt: "k # [Suc k ..< Suc k + m] = [k ..< k + Suc m]"
  by (simp add: upt_rec [of k])

lemma sentence_loop_units:
  "sentence_loop ep p n ss cur k = (cs, cur', k') \<Longrightarrow>
   map index cs = [k ..< k'] \<and> k' = k + length cs \<and> (\<forall>c \<in> set cs. chunk_text c \<noteq> [])"
proof (induction ss arbitrary: cur k cs cur' k')
  case Nil
  then show ?case by simp
next
  case (Cons s ss)
  show ?case
  proof (cases "600 < length (cur @ s)")
    case False
    with Cons.prems have "sentence_loop ep p n ss (cur @ s @ ''. '') k = (cs, cur', k')" by simp
    from Cons.IH [OF this] show ?thesis .
  next
    case True
    show ?thesis
    proof (cases "trim cur \<noteq> []")
      case False
      with True Cons.prems have "sentence_loop ep p n ss s k = (cs, cur', k')" by simp
      from Cons.IH [OF this] show ?thesis .
    next
      case ne: True
      obtain cs1 cur1 k1 where r: "sentence_loop ep p n ss s (Suc k) = (cs1, cur1, k1)"
        by (metis prod_cases3)
      from Cons.prems True ne r
      have eq: "cs = createChunkWithMetadata (trim cur) ep k p n # cs1" "k' = k1" by auto
      from Cons.IH [OF r] have IH: "map index cs1 = [Suc k ..< k1]" "k1 = Suc k + length cs1"
        "\<forall>c \<in> set cs1. chunk_text c \<noteq> []" by auto
      from IH eq ne show ?thesis
        by (auto simp: upt_rec [of k] createChunkWithMetadata_nonempty)
    qed
  qed
qed

lemma section_loop_units:
  "\<forall>s \<in> set sections. trim s \<noteq> [] \<Longrightarrow>
   map index (section_loop ep sections i k) = [k ..< k + length (section_loop ep sections i k)]
   \<and> (\<forall>c \<in> set (section_loop ep sections i k). chunk_text c \<noteq> [])"
proof (induction ep sections i k rule: section_loop.induct)
  case (1 episodeName sections i chunkIndex)
  show ?case
  proof (cases "i < length sections")
    case False
    then show ?thesis by (subst (1 2 3) section_loop.simps) simp
  next
    case True
    define sect where "sect = trim (sections ! i)"
    define prevContext where "prevContext =
      (if 0 < i then drop (length (sections ! (i - 1)) - 100) (sections ! (i - 1)) else [])"
    define nextContext where "nextContext =
      (if i < length sections - 1 then take 100 (sections ! (i + 1)) else [])"
    from True "1.prems" have sne: "sect \<noteq> []" by (simp add: sect_def)
    show ?thesis
    proof (cases "800 < length sect")
      case False
      have eq: "section_loop episodeName sections i chunkIndex =
          createChunkWithMetadata sect episodeName chunkIndex prevContext nextContext
          # section_loop episodeName sections (Suc i) (Suc chunkIndex)"
        using True False
        by (subst section_loop.simps)
           (simp add: Let_def sect_def prevContext_def nextContext_def)
      from "1.IH"(3) [OF True sect_def prevContext_def nextContext_def False "1.prems"]
      have IH: "map index (section_loop episodeName sections (Suc i) (Suc chunkIndex)) =
          [Suc chunkIndex ..< Suc chunkIndex + length (section_loop episodeName sections (Suc i) (Suc chunkIndex))]"
        "\<forall>c \<in> set (section_loop episodeName sections (Suc i) (Suc chunkIndex)). chunk_text c \<noteq> []"
        by auto
      show ?thesis unfolding eq using IH sne
        by (auto simp: upt_rec [of chunkIndex] createChunkWithMetadata_nonempty)
    next
      case long: True
      define sentences where "sentences =
        filter (\<lambda>s. 20 < length (trim s)) (split_runs is_sentence_end [] sect False)"
      obtain cs cur k where r:
        "sentence_loop episodeName prevContext nextContext sentences [] chunkIndex = (cs, cur, k)"
        by (metis prod_cases3)
      from sentence_loop_units [OF r] have su: "map index cs = [chunkIndex ..< k]"
        "k = chunkIndex + length cs" "\<forall>c \<in> set cs. chunk_text c \<noteq> []" by auto
      show ?thesis
      proof (cases "trim cur \<noteq> []")
        case ne: True
        have eq: "section_loop episodeName sections i chunkIndex =
            cs @ createChunkWithMetadata (trim cur) episodeName k prevContext nextContext
                 # section_loop episodeName sections (Suc i) (Suc k)"
          using True long r ne
          by (subst section_loop.simps)
             (simp add: Let_def sect_def prevContext_def nextContext_def sentences_def)
        from "1.IH"(1) [OF True sect_def prevContext_def nextContext_def long sentences_def
            r [symmetric] refl ne "1.prems"]
        have IH: "map index (section_loop episodeName sections (Suc i) (Suc k)) =
            [Suc k ..< Suc k + length (section_loop episodeName sections (Suc i) (Suc k))]"
          "\<forall>c \<in> set (section_loop episodeName sections (Suc i) (Suc k)). chunk_text c \<noteq> []"
          by auto
        have "[chunkIndex ..< k] @ k # [Suc k ..< Suc k + m] = [chunkIndex ..< chunkIndex + (length cs + Suc m)]" for m
          unfolding upt_Cons_upt su(2) by (rule upt_append_upt)
        with IH su ne show ?thesis unfolding eq
          by (auto simp: createChunkWithMetadata_nonempty)
      next
        case e: False
        have eq: "section_loop episodeName sections i chunkIndex =
            cs @ section_loop episodeName sections (Suc i) k"
          using True long r e
          by (subst section_loop.simps)
             (simp add: Let_def sect_def prevContext_def nextContext_def sentences_def)
        from "1.IH"(2) [OF True sect_def prevContext_def nextContext_def long sentences_def
            r [symmetric] refl e "1.prems"]
        have IH: "map index (section_loop episodeName sections (Suc i) k) =
            [k ..< k + length (section_loop episodeName sections (Suc i) k)]"
          "\<forall>c \<in> set (section_loop episodeName sections (Suc i) k). chunk_text c \<noteq> []"
          by auto
        have "[chunkIndex ..< k] @ [k ..< k + m] = [chunkIndex ..< chunkIndex + (length cs + m)]" for m
          unfolding su(2) by (rule upt_append_upt)
        with IH su show ?thesis unfolding eq by auto
      qed
    qed
  qed
qed

text \<open>
  What the smart chunker hands to \<open>createChunkWithMetadata\<close>: a trimmed section of more
  than 50 and at most 800 characters, or the trimmed buffer of the sentence loop of a
  longer section. A buffer holds sentences of more than 20 characters, each followed by
  a full stop and a space, except that a sentence that started the buffer after a unit
  was pushed has nothing after it. \<open>strip_speaker\<close> is the text that the unit keeps.
\<close>

definition strip_speaker :: "string \<Rightarrow> string" where
  "strip_speaker t = (case speaker_match t of None \<Rightarrow> t | Some (name, rest) \<Rightarrow> rest)"

definition sentence_buffer :: "string list \<Rightarrow> string \<Rightarrow> bool" where
  "sentence_buffer ss buf \<longleftrightarrow>
     ss \<noteq> [] \<and> (buf = concat (map (\<lambda>x. x @ ''. '') ss)
                \<or> buf = hd ss @ concat (map (\<lambda>x. x @ ''. '') (tl ss)))"

definition smart_raw_text :: "string \<Rightarrow> string \<Rightarrow> bool" where
  "smart_raw_text content t \<longleftrightarrow>
     (\<exists>s \<in> set (split_sections [] content). t = trim s \<and> 50 < length t \<and> length t \<le> 800)
     \<or> (\<exists>s \<in> set (split_sections [] content). \<exists>ss buf.
           800 < length (trim s) \<and> sentence_buffer ss buf \<and> t = trim buf
           \<and> (\<forall>x \<in> set ss. x \<in> set (split_runs is_sentence_end [] (trim s) False)
                            \<and> 20 < length (trim x)))"

lemma chunk_text_strip: "chunk_text (createChunkWithMetadata t ep idx p n) = strip_speaker t"
  by (simp add: chunk_text_createChunkWithMetadata strip_speaker_def)

lemma sentence_buffer_single: "sentence_buffer [s] s"
  by (simp add: sentence_buffer_def)

lemma sentence_buffer_first: "sentence_buffer [s] (s @ ''. '')"
  by (simp add: sentence_buffer_def)

lemma sentence_buffer_append:
  "sentence_buffer ss buf \<Longrightarrow> sentence_buffer (ss @ [s]) (buf @ s @ ''. '')"
  by (auto simp: sentence_buffer_def)

lemma length_dropWhile_append: "length (dropWhile P ys) \<le> length (dropWhile P (xs @ ys))"
proof (cases "\<forall>x \<in> set xs. P x")
  case True
  then show ?thesis by (simp add: dropWhile_append)
next
  case False
  have "length (dropWhile P ys) \<le> length ys" by (rule length_dropWhile_le)
  with False show ?thesis by (auto simp: dropWhile_append)
qed

lemma trim_append_length:
  assumes "trim x \<noteq> []"
  shows "length (trim x) \<le> length (trim (x @ r))"
proof -
  have ne: "dropWhile is_space x \<noteq> []"
  proof
    assume e: "dropWhile is_space x = []"
    have "trim x = []" unfolding trim_def e by simp
    with assms show False by simp
  qed
  then have "\<not> (\<forall>c \<in> set x. is_space c)" by (metis dropWhile_eq_Nil_conv)
  then have d: "dropWhile is_space (x @ r) = dropWhile is_space x @ r"
    by (auto simp: dropWhile_append)
  have "length (dropWhile is_space (rev (dropWhile is_space x)))
          \<le> length (dropWhile is_space (rev r @ rev (dropWhile is_space x)))"
    by (rule length_dropWhile_append)
  then show ?thesis by (simp add: trim_def d)
qed

lemma sentence_buffer_length:
  assumes "sentence_buffer ss buf" and "\<forall>x \<in> set ss. 20 < length (trim x)"
  shows "20 < length (trim buf)"
proof -
  from assms(1) obtain r where "buf = hd ss @ r" and "ss \<noteq> []"
    by (cases ss) (auto simp: sentence_buffer_def)
  moreover from this assms(2) have "20 < length (trim (hd ss))" by simp
  ultimately show ?thesis
    using trim_append_length [of "hd ss" r] by (cases "trim (hd ss) = []") auto
qed

lemma sentence_loop_raw:
  assumes "sentence_loop ep p n ss cur k = (cs, cur', k')"
    and "cur = [] \<or> (\<exists>ss0. sentence_buffer ss0 cur \<and> set ss0 \<subseteq> S)"
    and "set ss \<subseteq> S"
  shows "(\<forall>c \<in> set cs. \<exists>ss0 buf. sentence_buffer ss0 buf \<and> set ss0 \<subseteq> S
                          \<and> chunk_text c = strip_speaker (trim buf))
       \<and> (cur' = [] \<or> (\<exists>ss0. sentence_buffer ss0 cur' \<and> set ss0 \<subseteq> S))"
  using assms
proof (induction ss arbitrary: cur k cs cur' k')
  case Nil
  then show ?case by simp
next
  case (Cons s ss)
  from Cons.prems(3) have sS: "s \<in> S" and rest: "set ss \<subseteq> S" by auto
  show ?case
  proof (cases "600 < length (cur @ s)")
    case False
    with Cons.prems have r: "sentence_loop ep p n ss (cur @ s @ ''. '') k = (cs, cur', k')" by simp
    have "\<exists>ss0. sentence_buffer ss0 (cur @ s @ ''. '') \<and> set ss0 \<subseteq> S"
    proof (cases "cur = []")
      case True
      with sS sentence_buffer_first [of s] show ?thesis by (intro exI [of _ "[s]"]) simp
    next
      case False
      with Cons.prems(2) obtain ss0 where "sentence_buffer ss0 cur" "set ss0 \<subseteq> S" by auto
      with sS sentence_buffer_append [of ss0 cur s] show ?thesis
        by (intro exI [of _ "ss0 @ [s]"]) simp
    qed
    then have "cur @ s @ ''. '' = [] \<or> (\<exists>ss0. sentence_buffer ss0 (cur @ s @ ''. '') \<and> set ss0 \<subseteq> S)"
      by blast
    from Cons.IH [OF r this rest] show ?thesis .
  next
    case True
    have single: "s = [] \<or> (\<exists>ss0. sentence_buffer ss0 s \<and> set ss0 \<subseteq> S)"
      using sS sentence_buffer_single [of s] by (intro disjI2 exI [of _ "[s]"]) simp
    show ?thesis
    proof (cases "trim cur \<noteq> []")
      case False
      with True Cons.prems have "sentence_loop ep p n ss s k = (cs, cur', k')" by simp
      from Cons.IH [OF this single rest] show ?thesis .
    next
      case ne: True
      obtain cs1 cur1 k1 where r: "sentence_loop ep p n ss s (Suc k) = (cs1, cur1, k1)"
        by (metis prod_cases3)
      from Cons.prems True ne r
      have eq: "cs = createChunkWithMetadata (trim cur) ep k p n # cs1" "cur' = cur1" by auto
      have "cur \<noteq> []"
      proof
        assume "cur = []"
        then have "trim cur = []" by (simp add: trim_def)
        with ne show False by simp
      qed
      with Cons.prems(2) obtain ss0 where b: "sentence_buffer ss0 cur" "set ss0 \<subseteq> S" by auto
      from Cons.IH [OF r single rest] eq b show ?thesis
        by (auto simp: chunk_text_strip)
    qed
  qed
qed


lemma section_loop_raw:
  "c \<in> set (section_loop ep sections i k) \<Longrightarrow>
   \<exists>t. chunk_text c = strip_speaker t \<and>
       ((\<exists>s \<in> set sections. t = trim s \<and> length t \<le> 800)
        \<or> (\<exists>s \<in> set sections. \<exists>ss buf.
              800 < length (trim s) \<and> sentence_buffer ss buf \<and> t = trim buf
              \<and> (\<forall>x \<in> set ss. x \<in> set (split_runs is_sentence_end [] (trim s) False)
                               \<and> 20 < length (trim x))))"
proof (induction ep sections i k rule: section_loop.induct)
  case (1 episodeName sections i chunkIndex)
  show ?case
  proof (cases "i < length sections")
    case False
    with "1.prems" show ?thesis by (subst (asm) section_loop.simps) simp
  next
    case True
    define sect where "sect = trim (sections ! i)"
    define prevContext where "prevContext =
      (if 0 < i then drop (length (sections ! (i - 1)) - 100) (sections ! (i - 1)) else [])"
    define nextContext where "nextContext =
      (if i < length sections - 1 then take 100 (sections ! (i + 1)) else [])"
    from True have mem: "sections ! i \<in> set sections" by simp
    show ?thesis
    proof (cases "800 < length sect")
      case False
      have eq: "section_loop episodeName sections i chunkIndex =
          createChunkWithMetadata sect episodeName chunkIndex prevContext nextContext
          # section_loop episodeName sections (Suc i) (Suc chunkIndex)"
        using True False
        by (subst section_loop.simps)
           (simp add: Let_def sect_def prevContext_def nextContext_def)
      from "1.prems" eq consider
        "c = createChunkWithMetadata sect episodeName chunkIndex prevContext nextContext"
        | "c \<in> set (section_loop episodeName sections (Suc i) (Suc chunkIndex))" by auto
      then show ?thesis
      proof cases
        case 1
        then have "chunk_text c = strip_speaker sect" by (simp add: chunk_text_strip)
        moreover from False mem have "\<exists>s \<in> set sections. sect = trim s \<and> length sect \<le> 800"
          by (intro bexI [of _ "sections ! i"]) (simp_all add: sect_def)
        ultimately show ?thesis by (intro exI [of _ sect] conjI disjI1)
      next
        case 2
        from "1.IH"(3) [OF True sect_def prevContext_def nextContext_def False 2]
        show ?thesis .
      qed
    next
      case long: True
      define sentences where "sentences =
        filter (\<lambda>s. 20 < length (trim s)) (split_runs is_sentence_end [] sect False)"
      obtain cs cur k where r:
        "sentence_loop episodeName prevContext nextContext sentences [] chunkIndex = (cs, cur, k)"
        by (metis prod_cases3)
      from sentence_loop_raw [OF r, of "set sentences"]
      have units: "\<forall>c \<in> set cs. \<exists>ss0 buf. sentence_buffer ss0 buf \<and> set ss0 \<subseteq> set sentences
                          \<and> chunk_text c = strip_speaker (trim buf)"
        and last: "cur = [] \<or> (\<exists>ss0. sentence_buffer ss0 cur \<and> set ss0 \<subseteq> set sentences)"
        by auto
      have from_buffer: ?thesis
        if "sentence_buffer ss0 buf" "set ss0 \<subseteq> set sentences"
          "chunk_text c = strip_speaker (trim buf)" for ss0 buf
      proof -
        from that(2) have "\<forall>x \<in> set ss0. x \<in> set (split_runs is_sentence_end [] sect False)
                               \<and> 20 < length (trim x)"
          by (auto simp: sentences_def)
        with that(1) long mem
        have "\<exists>s \<in> set sections. \<exists>ss buf'.
              800 < length (trim s) \<and> sentence_buffer ss buf' \<and> trim buf = trim buf'
              \<and> (\<forall>x \<in> set ss. x \<in> set (split_runs is_sentence_end [] (trim s) False)
                               \<and> 20 < length (trim x))"
          unfolding sect_def
          by (intro bexI [of _ "sections ! i"] exI [of _ ss0] exI [of _ buf]) simp_all
        with that(3) show ?thesis by (intro exI [of _ "trim buf"] conjI disjI2)
      qed
      show ?thesis
      proof (cases "trim cur \<noteq> []")
        case ne: True
        have eq: "section_loop episodeName sections i chunkIndex =
            cs @ createChunkWithMetadata (trim cur) episodeName k prevContext nextContext
                 # section_loop episodeName sections (Suc i) (Suc k)"
          using True long r ne
          by (subst section_loop.simps)
             (simp add: Let_def sect_def prevContext_def nextContext_def sentences_def)
        from "1.prems" eq consider "c \<in> set cs"
          | "c = createChunkWithMetadata (trim cur) episodeName k prevContext nextContext"
          | "c \<in> set (section_loop episodeName sections (Suc i) (Suc k))" by auto
        then show ?thesis
        proof cases
          case 1
          with units obtain ss0 buf where "sentence_buffer ss0 buf" "set ss0 \<subseteq> set sentences"
            "chunk_text c = strip_speaker (trim buf)" by blast
          then show ?thesis by (rule from_buffer)
        next
          case 2
          have "cur \<noteq> []"
          proof
            assume "cur = []"
            then have "trim cur = []" by (simp add: trim_def)
            with ne show False by simp
          qed
          with last obtain ss0 where "sentence_buffer ss0 cur" "set ss0 \<subseteq> set sentences" by auto
          moreover from 2 have "chunk_text c = strip_speaker (trim cur)"
            by (simp add: chunk_text_strip)
          ultimately show ?thesis by (rule from_buffer)
        next
          case 3
          from "1.IH"(1) [OF True sect_def prevContext_def nextContext_def long sentences_def
              r [symmetric] refl ne 3]
          show ?thesis .
        qed
      next
        case e: False
        have eq: "section_loop episodeName sections i chunkIndex =
            cs @ section_loop episodeName sections (Suc i) k"
          using True long r e
          by (subst section_loop.simps)
             (simp add: Let_def sect_def prevContext_def nextContext_def sentences_def)
        from "1.prems" eq consider "c \<in> set cs"
          | "c \<in> set (section_loop episodeName sections (Suc i) k)" by auto
        then show ?thesis
        proof cases
          case 1
          with units obtain ss0 buf where "sentence_buffer ss0 buf" "set ss0 \<subseteq> set sentences"
            "chunk_text c = strip_speaker (trim buf)" by blast
          then show ?thesis by (rule from_buffer)
        next
          case 2
          from "1.IH"(2) [OF True sect_def prevContext_def nextContext_def long sentences_def
              r [symmetric] refl e 2]
          show ?thesis .
        qed
      qed
    qed
  qed
qed

lemma smart_units_raw:
  assumes "c \<in> set (createSmartChunks content ep)"
  shows "\<exists>t. smart_raw_text content t \<and> chunk_text c = strip_speaker t \<and> 20 < length t"
proof -
  let ?sections = "filter (\<lambda>s. 50 < length (trim s)) (split_sections [] content)"
  from assms have "c \<in> set (section_loop ep ?sections 0 0)" by (simp add: createSmartChunks_def)
  from section_loop_raw [OF this] obtain t where
    t: "chunk_text c = strip_speaker t"
    and cases: "(\<exists>s \<in> set ?sections. t = trim s \<and> length t \<le> 800)
        \<or> (\<exists>s \<in> set ?sections. \<exists>ss buf.
              800 < length (trim s) \<and> sentence_buffer ss buf \<and> t = trim buf
              \<and> (\<forall>x \<in> set ss. x \<in> set (split_runs is_sentence_end [] (trim s) False)
                               \<and> 20 < length (trim x)))"
    by blast
  from cases show ?thesis
  proof
    assume "\<exists>s \<in> set ?sections. t = trim s \<and> length t \<le> 800"
    then obtain s where "s \<in> set (split_sections [] content)" "50 < length (trim s)"
      "t = trim s" "length t \<le> 800" by auto
    then have "smart_raw_text content t" unfolding smart_raw_text_def by blast
    moreover from \<open>50 < length (trim s)\<close> \<open>t = trim s\<close> have "20 < length t" by simp
    ultimately show ?thesis using t by blast
  next
    assume "\<exists>s \<in> set ?sections. \<exists>ss buf.
              800 < length (trim s) \<and> sentence_buffer ss buf \<and> t = trim buf
              \<and> (\<forall>x \<in> set ss. x \<in> set (split_runs is_sentence_end [] (trim s) False)
                               \<and> 20 < length (trim x))"
    then obtain s ss buf where s: "s \<in> set (split_sections [] content)" "800 < length (trim s)"
      and b: "sentence_buffer ss buf" "t = trim buf"
      and ss: "\<forall>x \<in> set ss. x \<in> set (split_runs is_sentence_end [] (trim s) False)
                               \<and> 20 < length (trim x)"
      by auto
    from sentence_buffer_length [OF b(1)] ss b(2) have "20 < length t" by simp
    moreover from s b ss have "smart_raw_text content t"
      unfolding smart_raw_text_def by blast
    ultimately show ?thesis using t by blast
  qed
qed

text \<open>
  Claim C8, as the code has it. Every unit of the fixed-width chunker has more than 50
  characters. The smart chunker applies its thresholds before \<open>createChunkWithMetadata\<close>
  removes a speaker prefix: the text it hands over is a trimmed section of more than 50
  (and at most 800) characters, or the trimmed buffer of sentences of more than 20
  characters each, and has more than 20 characters; the text that the unit keeps can be
  shorter than the thresholds, and is never empty. In both modes the indices of the
  units of a document are 0, 1, 2, ..., hence strictly increasing.
\<close>

theorem chunker_minimum_and_indices:
  "(\<forall>c \<in> set (chunk_loop content ep 0 0). 50 < length (chunk_text c))
   \<and> map index (chunk_loop content ep 0 0) = [0 ..< length (chunk_loop content ep 0 0)]
   \<and> sorted_wrt (<) (map index (chunk_loop content ep 0 0))
   \<and> (\<forall>c \<in> set (createSmartChunks content ep). chunk_text c \<noteq> [])
   \<and> (\<forall>c \<in> set (createSmartChunks content ep).
         \<exists>t. smart_raw_text content t \<and> chunk_text c = strip_speaker t \<and> 20 < length t)
   \<and> map index (createSmartChunks content ep) = [0 ..< length (createSmartChunks content ep)]
   \<and> sorted_wrt (<) (map index (createSmartChunks content ep))"
proof -
  let ?sections = "filter (\<lambda>s. 50 < length (trim s)) (split_sections [] content)"
  have ne: "\<forall>s \<in> set ?sections. trim s \<noteq> []" by auto
  from section_loop_units [OF ne, of ep 0 0]
  have smart: "map index (createSmartChunks content ep) = [0 ..< length (createSmartChunks content ep)]"
    "\<forall>c \<in> set (createSmartChunks content ep). chunk_text c \<noteq> []"
    by (simp_all add: createSmartChunks_def)
  have raw: "\<forall>c \<in> set (createSmartChunks content ep).
         \<exists>t. smart_raw_text content t \<and> chunk_text c = strip_speaker t \<and> 20 < length t"
    using smart_units_raw by blast
  have fixed: "map index (chunk_loop content ep 0 0) = [0 ..< length (chunk_loop content ep 0 0)]"
    using chunk_loop_indices [of content ep 0 0] by simp
  have texts: "\<forall>c \<in> set (chunk_loop content ep 0 0). 50 < length (chunk_text c)"
    using chunk_loop_texts [of _ content ep 0 0] by blast
  have "sorted_wrt (<) [0 ..< n]" for n :: nat
    by simp
  then have "sorted_wrt (<) (map index (chunk_loop content ep 0 0))"
    "sorted_wrt (<) (map index (createSmartChunks content ep))"
    by (simp_all only: smart(1) fixed)
  with smart raw fixed texts show ?thesis by (intro conjI)
qed

text \<open>
  Three documents: a transcript of 105 characters, which the load of the simple system
  accepts and the fixed-width chunker keeps whole; a section of 51 characters that
  starts with a speaker; and a section of 807 characters with three sentences, of which
  the one of 5 characters is dropped.
\<close>

definition episode_text :: string where
  "episode_text = ''Host: Welcome to the show. Today we talk about building a startup, raising funding and finding customers.''"

lemma episode_length: "length episode_text = 105" "trim episode_text = episode_text"
  by (simp_all add: episode_text_def trim_def is_space_def char_simps)

lemma one_file_chunks:
  "chunk_loop episode_text ''ep1'' 0 0 =
     [\<lparr>chunk_text = episode_text, episode = ''ep1'', index = 0, embedding = None\<rparr>]"
  by (subst chunk_loop.simps, subst chunk_loop.simps) (simp add: episode_length)

definition short_line :: string where
  "short_line = ''Priya: We closed the seed round in under two weeks.''"

definition padded_line :: string where
  "padded_line = ''Bob:                                                  hi''"

lemma lens: "length (trim short_line) = 51" "length (trim padded_line) = 56"
  by (simp_all add: short_line_def padded_line_def trim_def is_space_def char_simps)

lemmas chunker_simps =
  createSmartChunks_def split_sections.simps(2) section_loop.simps trim_def is_space_def
  is_upper_def is_lower_def is_line_terminator_def speaker_match_def line_from_def char_simps
  chunk_text_createChunkWithMetadata

lemma short_line_units:
  "map chunk_text (createSmartChunks short_line ''ep1'') = [''We closed the seed round in under two weeks.'']"
  by (simp add: short_line_def chunker_simps numeral_eq_Suc)

lemma padded_line_units:
  "map chunk_text (createSmartChunks padded_line ''ep1'') = [''hi'']"
  by (simp add: padded_line_def chunker_simps)

text \<open>Texts without line feeds, sentence ends or outer white space.\<close>

lemma split_sections_one_piece:
  "CHR 0x0A \<notin> set s \<Longrightarrow> split_sections acc s = [rev acc @ s]"
  by (induction s arbitrary: acc) (auto simp: split_sections.simps(2))

lemma split_runs_one_piece: "\<forall>x \<in> set s. \<not> P x \<Longrightarrow> split_runs P acc s b = [rev acc @ s]"
  by (induction s arbitrary: acc b) simp_all

lemma split_runs_piece:
  "\<forall>x \<in> set s. \<not> P x \<Longrightarrow> P c \<Longrightarrow> b \<longrightarrow> s \<noteq> [] \<Longrightarrow>
   split_runs P acc (s @ c # rest) b = (rev acc @ s) # split_runs P [] rest True"
  by (induction s arbitrary: acc b) simp_all

lemma trim_unchanged:
  assumes "s \<noteq> []" and "\<not> is_space (hd s)" and "\<not> is_space (last s)"
  shows "trim s = s"
proof -
  from assms(1,2) have "dropWhile is_space s = s" by (cases s) simp_all
  moreover from assms(1,3) have "dropWhile is_space (rev s) = rev s"
    by (cases "rev s") (simp_all add: hd_rev [symmetric])
  ultimately show ?thesis by (simp add: trim_def)
qed

lemma trim_stop_space:
  assumes "s \<noteq> []" and "\<not> is_space (hd s)"
  shows "trim (s @ ''. '') = s @ ''.''"
proof -
  from assms have "dropWhile is_space (s @ ''. '') = s @ ''. ''" by (cases s) simp_all
  then show ?thesis by (simp add: trim_def is_space_def char_simps)
qed

definition long_section :: string where
  "long_section = replicate 400 (CHR ''a'') @ ''.short.'' @ replicate 400 (CHR ''b'')"

lemma plain_characters:
  "\<not> is_space (CHR ''a'')" "\<not> is_space (CHR ''b'')" "\<not> is_space (CHR ''s'')"
  "\<not> is_space (CHR ''t'')"
  "\<not> is_sentence_end (CHR ''a'')" "\<not> is_sentence_end (CHR ''b'')"
  by (simp_all add: is_space_def is_sentence_end_def char_simps)

lemma long_section_trim: "trim long_section = long_section" "length long_section = 807"
  by (simp_all add: long_section_def trim_unchanged plain_characters hd_append)

lemma long_section_pieces: "split_sections [] long_section = [long_section]"
  by (simp add: split_sections_one_piece long_section_def)

lemma long_section_runs:
  "split_runs is_sentence_end [] long_section False
     = [replicate 400 (CHR ''a''), ''short'', replicate 400 (CHR ''b'')]"
proof -
  have "long_section = replicate 400 (CHR ''a'') @ CHR ''.'' # (''short'' @ CHR ''.'' # replicate 400 (CHR ''b''))"
    by (simp add: long_section_def)
  moreover have "split_runs is_sentence_end [] (replicate 400 (CHR ''b'')) True = [replicate 400 (CHR ''b'')]"
    using split_runs_one_piece [of "replicate 400 (CHR ''b'')" is_sentence_end "[]" True]
    by (simp add: plain_characters)
  moreover have "split_runs is_sentence_end [] (''short'' @ CHR ''.'' # replicate 400 (CHR ''b'')) True
        = ''short'' # split_runs is_sentence_end [] (replicate 400 (CHR ''b'')) True"
    using split_runs_piece [of "''short''" is_sentence_end "CHR ''.''" True "[]"]
    by (simp add: is_sentence_end_def)
  ultimately show ?thesis
    using split_runs_piece [of "replicate 400 (CHR ''a'')" is_sentence_end "CHR ''.''" False "[]"
        "''short'' @ CHR ''.'' # replicate 400 (CHR ''b'')"]
    by (simp add: plain_characters is_sentence_end_def)
qed

lemma long_section_sentences:
  "filter (\<lambda>s. 20 < length (trim s)) (split_runs is_sentence_end [] long_section False)
     = [replicate 400 (CHR ''a''), replicate 400 (CHR ''b'')]"
  by (simp add: long_section_runs trim_unchanged plain_characters)

lemma long_section_buffer: "trim (replicate 400 (CHR ''a'') @ ''. '') = replicate 400 (CHR ''a'') @ ''.''"
  using trim_stop_space [of "replicate 400 (CHR ''a'')"] by (simp add: plain_characters)

lemma long_section_loop:
  "sentence_loop ep p n [replicate 400 (CHR ''a''), replicate 400 (CHR ''b'')] [] k
     = ([createChunkWithMetadata (replicate 400 (CHR ''a'') @ ''.'') ep k p n],
        replicate 400 (CHR ''b''), Suc k)"
  by (simp add: long_section_buffer)

lemma long_section_units:
  "createSmartChunks long_section ep =
     [createChunkWithMetadata (replicate 400 (CHR ''a'') @ ''.'') ep 0 [] [],
      createChunkWithMetadata (replicate 400 (CHR ''b'')) ep 1 [] []]"
  by (simp add: createSmartChunks_def long_section_pieces long_section_trim
      section_loop.simps [of _ _ 0] section_loop.simps [of _ _ 1] section_loop.simps [of _ _ "Suc 0"]
      long_section_sentences long_section_buffer trim_unchanged plain_characters)

lemma replicate_numeral_Cons: "replicate (numeral k) x = x # replicate (pred_numeral k) x"
  by (simp add: numeral_eq_Suc)

lemma long_section_texts:
  "map chunk_text (createSmartChunks long_section ep)
     = [replicate 400 (CHR ''a'') @ ''.'', replicate 400 (CHR ''b'')]"
  by (simp add: long_section_units chunk_text_strip strip_speaker_def speaker_match_def
      replicate_numeral_Cons is_upper_def char_simps)

lemma short_line_raw:
  "smart_raw_text short_line short_line"
  "strip_speaker short_line = ''We closed the seed round in under two weeks.''"
proof -
  have "split_sections [] short_line = [short_line]"
    by (simp add: split_sections_one_piece short_line_def)
  moreover have "trim short_line = short_line"
    by (simp add: short_line_def trim_def is_space_def char_simps)
  ultimately show "smart_raw_text short_line short_line"
    using lens(1) by (simp add: smart_raw_text_def)
  show "strip_speaker short_line = ''We closed the seed round in under two weeks.''"
    by (simp add: strip_speaker_def short_line_def speaker_match_def is_upper_def is_lower_def
        is_space_def is_line_terminator_def line_from_def char_simps numeral_eq_Suc)
qed

lemma long_section_raw:
  "smart_raw_text long_section (replicate 400 (CHR ''a'') @ ''.'')"
  "smart_raw_text long_section (replicate 400 (CHR ''b''))"
proof -
  have first: "sentence_buffer [replicate 400 (CHR ''a'')] (replicate 400 (CHR ''a'') @ ''. '')"
    by (rule sentence_buffer_first)
  have second: "sentence_buffer [replicate 400 (CHR ''b'')] (replicate 400 (CHR ''b''))"
    by (rule sentence_buffer_single)
  have s: "long_section \<in> set (split_sections [] long_section)"
    "800 < length (trim long_section)"
    by (simp_all add: long_section_pieces long_section_trim)
  have a: "\<forall>x \<in> set [replicate 400 (CHR ''a'')].
             x \<in> set (split_runs is_sentence_end [] (trim long_section) False)
             \<and> 20 < length (trim x)"
    and b: "\<forall>x \<in> set [replicate 400 (CHR ''b'')].
             x \<in> set (split_runs is_sentence_end [] (trim long_section) False)
             \<and> 20 < length (trim x)"
    by (simp_all add: long_section_trim long_section_runs trim_unchanged plain_characters)
  from s first a long_section_buffer
  show "smart_raw_text long_section (replicate 400 (CHR ''a'') @ ''.'')"
    unfolding smart_raw_text_def by (intro disjI2) (metis (no_types, lifting))
  have "trim (replicate 400 (CHR ''b'')) = replicate 400 (CHR ''b'')"
    by (simp add: trim_unchanged plain_characters)
  with s second b
  show "smart_raw_text long_section (replicate 400 (CHR ''b''))"
    unfolding smart_raw_text_def by (intro disjI2) (metis (no_types, lifting))
qed

theorem chunker_witness:
  "100 \<le> length (trim episode_text)
   \<and> chunk_loop episode_text ''ep1'' 0 0 =
       [\<lparr>chunk_text = episode_text, episode = ''ep1'', index = 0, embedding = None\<rparr>]
   \<and> 50 < length episode_text
   \<and> map index (createSmartChunks short_line ''ep1'') = [0]
   \<and> map chunk_text (createSmartChunks short_line ''ep1'')
       = [''We closed the seed round in under two weeks.'']
   \<and> smart_raw_text short_line short_line
   \<and> strip_speaker short_line = ''We closed the seed round in under two weeks.''
   \<and> map index (createSmartChunks long_section ''ep1'') = [0, 1]
   \<and> map chunk_text (createSmartChunks long_section ''ep1'')
       = [replicate 400 (CHR ''a'') @ ''.'', replicate 400 (CHR ''b'')]
   \<and> smart_raw_text long_section (replicate 400 (CHR ''a'') @ ''.'')
   \<and> smart_raw_text long_section (replicate 400 (CHR ''b''))"
proof -
  have "length (map chunk_text (createSmartChunks short_line ''ep1'')) = 1"
    by (simp only: short_line_units) simp
  then have one: "length (createSmartChunks short_line ''ep1'') = 1" by simp
  from chunker_minimum_and_indices [of short_line "''ep1''"]
  have "map index (createSmartChunks short_line ''ep1'')
          = [0 ..< length (createSmartChunks short_line ''ep1'')]"
    by blast
  with one have short: "map index (createSmartChunks short_line ''ep1'') = [0]" by simp
  have two: "length (createSmartChunks long_section ''ep1'') = 2"
    by (simp add: long_section_units)
  from chunker_minimum_and_indices [of long_section "''ep1''"]
  have "map index (createSmartChunks long_section ''ep1'')
          = [0 ..< length (createSmartChunks long_section ''ep1'')]"
    by blast
  with two have long: "map index (createSmartChunks long_section ''ep1'') = [0, 1]"
    by (simp add: upt_rec)
  from chunker_minimum_and_indices [of episode_text "''ep1''"] one_file_chunks
  have "50 < length episode_text" by simp
  with short long one_file_chunks short_line_units short_line_raw long_section_texts
    long_section_raw episode_length
  show ?thesis by simp
qed

text \<open>
  The claim as stated fails in the smart mode: a section of 51 characters passes the
  threshold of 50 and its unit has the 44 characters after the speaker prefix; a section
  of 56 characters gives a unit of 2 characters.
\<close>

theorem smart_chunk_below_threshold:
  "length (trim short_line) = 51
   \<and> map chunk_text (createSmartChunks short_line ''ep1'')
       = [''We closed the seed round in under two weeks.'']
   \<and> length ''We closed the seed round in under two weeks.'' = 44
   \<and> length (trim padded_line) = 56
   \<and> map chunk_text (createSmartChunks padded_line ''ep1'') = [''hi'']"
  using lens short_line_units padded_line_units by simp

subsection \<open>Status introspection\<close>

text \<open>
  Claim C9, as the code has it. \<open>getSystemStatus\<close> runs \<open>initialize\<close> and reports the state
  that results: readiness, the initialization error, the size of the corpus and the
  number of embedded units. On a system that is ready or has recorded an error
  \<open>initialize\<close> does nothing and the state is left as it was; in every case the state that
  results is ready or has an error recorded.
\<close>

theorem status_snapshot_and_frame:
  "(isReady s \<or> truthy (initError s) \<longrightarrow> getSystemStatus w s = (status_of w s, s))
   \<and> snd (getSystemStatus w s) = initialize w s
   \<and> ready (fst (getSystemStatus w s)) = isReady (initialize w s)
   \<and> error (fst (getSystemStatus w s)) = initError (initialize w s)
   \<and> totalChunks (fst (getSystemStatus w s)) = length (chunks (initialize w s))
   \<and> embeddedChunks (fst (getSystemStatus w s))
       = length (filter (\<lambda>c. embedding c \<noteq> None) (chunks (initialize w s)))
   \<and> (isReady (initialize w s) \<or> truthy (initError (initialize w s)))"
proof -
  have "isReady (initialize w s) \<or> truthy (initError (initialize w s))"
    by (auto simp: initialize_def Let_def truthy_def split: option.splits prod.splits)
  then show ?thesis
    by (simp add: getSystemStatus_def status_of_def initialize_def Let_def)
qed

definition fresh_state :: app_state where
  "fresh_state = \<lparr>chunks = [], enhancedChunks = [], isReady = False, isEnhancedReady = False,
                  initError = None\<rparr>"

definition one_file_world :: world where
  "one_file_world = \<lparr>transcriptPath = ''/app/public/transcripts'',
     readdir = Some [''ep1.txt''],
     readFile = (\<lambda>f. Some episode_text),
     openai_key = None, groq_key = None,
     embeddings_api = (\<lambda>i t. RequestFailed)\<rparr>"

definition no_directory_world :: world where
  "no_directory_world = \<lparr>transcriptPath = ''/app/public/transcripts'',
     readdir = None,
     readFile = (\<lambda>f. None),
     openai_key = None, groq_key = None,
     embeddings_api = (\<lambda>i t. RequestFailed)\<rparr>"


lemma one_file_initialize:
  "initialize one_file_world fresh_state =
     fresh_state\<lparr>chunks := [\<lparr>chunk_text = episode_text, episode = ''ep1'', index = 0,
                               embedding = None\<rparr>],
                  isReady := True\<rparr>"
  by (simp add: initialize_def one_file_world_def fresh_state_def truthy_def endsWith_def
      episode_length one_file_chunks getEmbedding_def)

lemma no_directory_initialize:
  "initialize no_directory_world fresh_state =
     fresh_state\<lparr>initError :=
       Some ''Cannot access transcript directory: /app/public/transcripts''\<rparr>"
  by (simp add: initialize_def no_directory_world_def fresh_state_def truthy_def)

definition ready_state :: app_state where
  "ready_state = fresh_state\<lparr>chunks := [\<lparr>chunk_text = episode_text, episode = ''ep1'', index = 0,
                               embedding = None\<rparr>],
                  isReady := True\<rparr>"

theorem status_witness:
  "isReady ready_state
   \<and> getSystemStatus one_file_world ready_state = (status_of one_file_world ready_state, ready_state)
   \<and> totalChunks (fst (getSystemStatus one_file_world ready_state)) = 1"
  using status_snapshot_and_frame [of ready_state one_file_world]
  by (simp add: ready_state_def fresh_state_def getSystemStatus_def initialize_def status_of_def)

text \<open>
  The claim as stated fails on a system that has not been initialized: the call loads
  the corpus and sets \<open>isReady\<close>, or records the error of a directory that cannot be read.
\<close>

theorem status_initializes_fresh_system:
  "snd (getSystemStatus one_file_world fresh_state) =
     fresh_state\<lparr>chunks := [\<lparr>chunk_text = episode_text, episode = ''ep1'', index = 0,
                               embedding = None\<rparr>],
                  isReady := True\<rparr>
   \<and> chunks fresh_state = [] \<and> isReady fresh_state = False
   \<and> initError (snd (getSystemStatus no_directory_world fresh_state)) =
       Some ''Cannot access transcript directory: /app/public/transcripts''
   \<and> initError fresh_state = None"
  by (simp add: getSystemStatus_def Let_def one_file_initialize no_directory_initialize)
     (simp add: fresh_state_def)

end
